theory Spec2Isabelle
  imports Main "HOL-Library.Sublist"
begin

section \<open>The route recognizer of src/modules/ember-routing.js\<close>

text \<open>
  A shallow embedding of the \<^verbatim>\<open>route-recognizer\<close> module (lines 1 to 474 of
  \<^verbatim>\<open>src/modules/ember-routing.js\<close>).

  Conventions of the model.
  \<^item> A JavaScript string is a \<^typ>\<open>string\<close> that holds the bytes of its UTF-8 encoding:
    a character below U+0080 is one list element, any other character is the two to four
    bytes of its encoding, all of them at or above 0x80. The source splits and compares
    strings by code unit; the characters it tests for (the slash, \<^verbatim>\<open>?\<close>, \<^verbatim>\<open>&\<close>, \<^verbatim>\<open>=\<close>,
    \<^verbatim>\<open>:\<close>, \<^verbatim>\<open>*\<close>, \<^verbatim>\<open>%\<close>, the specials of a regex) are below U+0080, so that working
    byte by byte gives the same results, only with one automaton state for each byte of a
    longer character of a static segment, where the source has one for each code unit.
  \<^item> A plain object used as a dictionary is an association list of its own properties in
    insertion order (\<open>obj_set\<close>, \<open>obj_get\<close>); no property is named \<^verbatim>\<open>__proto__\<close>, and keys
    that are array indices, which \<^verbatim>\<open>for ... in\<close> visits before the others, get no special
    place. A read of a property the object does not own reaches \<^verbatim>\<open>Object.prototype\<close>:
    this is modelled for the table of named routes, which the source reads with names the
    caller chooses (\<open>names_lookup\<close>), and for the query params that a handler watches
    (\<open>watch_queryParams\<close>); in \<^verbatim>\<open>segment.generate\<close> such a read is \<^verbatim>\<open>undefined\<close>, that is,
    a dynamic or star segment whose value the caller leaves out is taken not to be named
    like a property of \<^verbatim>\<open>Object.prototype\<close>.
  \<^item> The automaton states are objects that refer to each other (a repeating state is its
    own child), so they live in an explicit store: a list of states addressed by index,
    \<^verbatim>\<open>rootState\<close> at address 0. \<^verbatim>\<open>new State(charSpec)\<close> allocates at the end of the list.
  \<^item> Every \<^verbatim>\<open>throw\<close> (also the ones raised by the language: a property access on
    \<^verbatim>\<open>undefined\<close> or \<^verbatim>\<open>null\<close>, a malformed escape in \<^verbatim>\<open>decodeURIComponent\<close>) is a value
    \<open>Inl e\<close> of the result.
\<close>

subsection \<open>Strings and objects\<close>

definition backslash :: char where
  "backslash = CHR 0x5C"

text \<open>\<^verbatim>\<open>String.prototype.split\<close> with a one-character separator.\<close>

fun split_on :: "char \<Rightarrow> string \<Rightarrow> string list" where
  "split_on sep [] = [[]]"
| "split_on sep (c # cs) =
     (if c = sep then [] # split_on sep cs
      else (case split_on sep cs of
              [] \<Rightarrow> [[c]]
            | x # xs \<Rightarrow> (c # x) # xs))"

text \<open>\<^verbatim>\<open>Array.prototype.join\<close>.\<close>

fun join :: "string \<Rightarrow> string list \<Rightarrow> string" where
  "join sep [] = []"
| "join sep [x] = x"
| "join sep (x # y # ys) = x @ sep @ join sep (y # ys)"

text \<open>\<^verbatim>\<open>obj[k] = v\<close> and \<^verbatim>\<open>obj[k]\<close> on the own properties of an object.\<close>

fun obj_set :: "(string \<times> 'v) list \<Rightarrow> string \<Rightarrow> 'v \<Rightarrow> (string \<times> 'v) list" where
  "obj_set [] k v = [(k, v)]"
| "obj_set ((k', v') # kvs) k v =
     (if k' = k then (k, v) # kvs else (k', v') # obj_set kvs k v)"

definition obj_get :: "(string \<times> 'v) list \<Rightarrow> string \<Rightarrow> 'v option" where
  "obj_get obj k = map_of obj k"

text \<open>
  The names of the properties of \<^verbatim>\<open>Object.prototype\<close>, which every object made by \<^verbatim>\<open>{}\<close>
  inherits: the ones of the language (ECMAScript 5.1, 15.2.4) and the ones that the
  engines add (\<^verbatim>\<open>__proto__\<close> and the four accessor helpers). Their values are functions,
  but for \<^verbatim>\<open>__proto__\<close>, which is \<^verbatim>\<open>Object.prototype\<close> itself; all are truthy.
\<close>

definition Object_prototype :: "string list" where
  "Object_prototype =
     [''constructor'', ''toString'', ''toLocaleString'', ''valueOf'', ''hasOwnProperty'',
      ''isPrototypeOf'', ''propertyIsEnumerable'', ''__proto__'', ''__defineGetter__'',
      ''__defineSetter__'', ''__lookupGetter__'', ''__lookupSetter__'']"

datatype error =
    NoSuchRoute string
  | InvalidQueryParam string
  | URIError
  | TypeError

subsection \<open>Segments (lines 6 to 114)\<close>

definition specials :: "char list" where
  "specials =
     [CHR ''/'', CHR ''.'', CHR ''*'', CHR ''+'', CHR ''?'', CHR ''|'',
      CHR ''('', CHR '')'', CHR ''['', CHR '']'', CHR ''{'', CHR ''}'', CHR 0x5C]"

text \<open>
  \<^verbatim>\<open>string.replace(escapeRegex, '\\$1')\<close>: every character of \<open>specials\<close> gets a
  backslash in front; every other character, \<^verbatim>\<open>^\<close> and \<^verbatim>\<open>$\<close> among them, is copied.
\<close>

definition escapeRegex_replace :: "string \<Rightarrow> string" where
  "escapeRegex_replace s =
     concat (map (\<lambda>c. if c \<in> set specials then [backslash, c] else [c]) s)"

record charSpec =
  validChars :: "string option"
  invalidChars :: "string option"
  repeat :: bool

datatype segment =
    StaticSegment string
  | DynamicSegment string
  | StarSegment string
  | EpsilonSegment

fun eachChar :: "segment \<Rightarrow> charSpec list" where
  "eachChar (StaticSegment string) =
     map (\<lambda>char. \<lparr>validChars = Some [char], invalidChars = None, repeat = False\<rparr>) string"
| "eachChar (DynamicSegment name) =
     [\<lparr>validChars = None, invalidChars = Some ''/'', repeat = True\<rparr>]"
| "eachChar (StarSegment name) =
     [\<lparr>validChars = None, invalidChars = Some '''', repeat = True\<rparr>]"
| "eachChar EpsilonSegment = []"

text \<open>\<^verbatim>\<open>segment.regex()\<close>: the text of the regex fragment.\<close>

fun segment_regex :: "segment \<Rightarrow> string" where
  "segment_regex (StaticSegment string) = escapeRegex_replace string"
| "segment_regex (DynamicSegment name) = ''([^/]+)''"
| "segment_regex (StarSegment name) = ''(.+)''"
| "segment_regex EpsilonSegment = ''''"

text \<open>
  \<^verbatim>\<open>segment.generate(params)\<close>. \<open>params\<close> is the caller's object, or \<open>None\<close> when the
  caller passed none: \<^verbatim>\<open>params[this.name]\<close> then throws a TypeError. A name the object
  lacks reads \<^verbatim>\<open>undefined\<close>, which \<^verbatim>\<open>output += ...\<close> appends as the text
  \<^verbatim>\<open>undefined\<close>.
\<close>

definition param_text :: "(string \<times> string) list option \<Rightarrow> string \<Rightarrow> error + string" where
  "param_text params name =
     (case params of
        None \<Rightarrow> Inl TypeError
      | Some obj \<Rightarrow>
          (case obj_get obj name of
             None \<Rightarrow> Inr ''undefined''
           | Some v \<Rightarrow> Inr v))"

fun segment_generate :: "segment \<Rightarrow> (string \<times> string) list option \<Rightarrow> error + string" where
  "segment_generate (StaticSegment string) params = Inr string"
| "segment_generate (DynamicSegment name) params = param_text params name"
| "segment_generate (StarSegment name) params = param_text params name"
| "segment_generate EpsilonSegment params = Inr ''''"

record types =
  statics :: nat
  dynamics :: nat
  stars :: nat

text \<open>
  One iteration of the loop of \<^verbatim>\<open>parse\<close>. \<^verbatim>\<open>/^:([^\/]+)$/\<close> matches a segment that is
  a colon followed by at least one character (a segment never holds a slash: it comes
  from \<^verbatim>\<open>split("/")\<close>); likewise for the star.
\<close>

definition parse_segment ::
  "string \<Rightarrow> segment list \<times> string list \<times> types \<Rightarrow> segment list \<times> string list \<times> types" where
  "parse_segment seg acc =
     (case acc of (results, names, tys) \<Rightarrow>
        (case seg of
           c # name \<Rightarrow>
             (if c = CHR '':'' \<and> name \<noteq> [] then
                (results @ [DynamicSegment name], names @ [name],
                 tys\<lparr>dynamics := Suc (dynamics tys)\<rparr>)
              else if c = CHR ''*'' \<and> name \<noteq> [] then
                (results @ [StarSegment name], names @ [name],
                 tys\<lparr>stars := Suc (stars tys)\<rparr>)
              else
                (results @ [StaticSegment seg], names, tys\<lparr>statics := Suc (statics tys)\<rparr>))
         | [] \<Rightarrow> (results @ [EpsilonSegment], names, tys)))"

text \<open>
  \<^verbatim>\<open>parse(route, names, types)\<close>: returns the segments together with the two arrays it
  was handed, updated.
\<close>

definition parse :: "string \<Rightarrow> string list \<Rightarrow> types \<Rightarrow> segment list \<times> string list \<times> types" where
  "parse route names tys =
     (let route' = (case route of c # r \<Rightarrow> if c = CHR ''/'' then r else route | [] \<Rightarrow> route)
      in fold parse_segment (split_on (CHR ''/'') route') ([], names, tys))"

subsection \<open>States (lines 133 to 215)\<close>

text \<open>
  An accepting state has three more properties, \<^verbatim>\<open>handlers\<close>, \<^verbatim>\<open>regex\<close> and
  \<^verbatim>\<open>types\<close>. The source assigns them in three consecutive statements of \<^verbatim>\<open>add\<close> and
  nowhere else, so the model holds them in one optional record: \<open>accepting s = None\<close>
  is a state without them. The \<^verbatim>\<open>RegExp\<close> object is modelled by the atoms it was
  compiled to (\<open>RegExp\<close> below).
\<close>

datatype re_atom =
    AssertStart
  | AssertEnd
  | Lit char
  | CaptureNotSlash
  | CaptureAny

record handler_entry =
  h_handler :: string
  h_names :: "string list"
  h_queryParams :: "string list option"

record accepting =
  handlers :: "handler_entry list"
  regex :: "re_atom list"
  types :: types

record state =
  charSpec :: charSpec
  nextStates :: "nat list"
  accepting :: "accepting option"

text \<open>
  \<^verbatim>\<open>new State(charSpec)\<close>. The root is \<^verbatim>\<open>new State()\<close>: its char spec is \<^verbatim>\<open>undefined\<close>
  and is never read, since the root is no state's child.
\<close>

definition new_State :: "charSpec \<Rightarrow> state" where
  "new_State cs =
     \<lparr>charSpec = cs, nextStates = [], accepting = None\<rparr>"

definition undefined_charSpec :: charSpec where
  "undefined_charSpec = \<lparr>validChars = None, invalidChars = None, repeat = False\<rparr>"

text \<open>\<^verbatim>\<open>State.prototype.get\<close>: the first child whose char spec \<^verbatim>\<open>isEqual\<close>.\<close>

definition isEqual :: "charSpec \<Rightarrow> charSpec \<Rightarrow> bool" where
  "isEqual a b \<longleftrightarrow> validChars a = validChars b \<and> invalidChars a = invalidChars b"

definition get :: "state list \<Rightarrow> nat \<Rightarrow> charSpec \<Rightarrow> nat option" where
  "get heap s cs =
     List.find (\<lambda>child. isEqual (charSpec (heap ! child)) cs) (nextStates (heap ! s))"

text \<open>
  \<^verbatim>\<open>State.prototype.put\<close>, on the state at address \<open>s\<close>: returns the store and the
  address of the child.
\<close>

definition put :: "state list \<Rightarrow> nat \<Rightarrow> charSpec \<Rightarrow> state list \<times> nat" where
  "put heap s cs =
     (case get heap s cs of
        Some child \<Rightarrow> (heap, child)
      | None \<Rightarrow>
          (let n = length heap;
               heap1 = heap[s := (heap ! s)\<lparr>nextStates := nextStates (heap ! s) @ [n]\<rparr>] @
                         [new_State cs];
               heap2 = (if repeat cs
                        then heap1[n := (heap1 ! n)\<lparr>nextStates := nextStates (heap1 ! n) @ [n]\<rparr>]
                        else heap1)
           in (heap2, n)))"

text \<open>\<^verbatim>\<open>State.prototype.match\<close>: the children that take the character.\<close>

definition accepts_char :: "charSpec \<Rightarrow> char \<Rightarrow> bool" where
  "accepts_char cs char =
     (case validChars cs of
        Some chars \<Rightarrow> char \<in> set chars
      | None \<Rightarrow>
          (case invalidChars cs of
             Some chars \<Rightarrow> char \<notin> set chars
           | None \<Rightarrow> False))"

definition match :: "state list \<Rightarrow> nat \<Rightarrow> char \<Rightarrow> nat list" where
  "match heap s char =
     filter (\<lambda>child. accepts_char (charSpec (heap ! child)) char) (nextStates (heap ! s))"

definition recognizeChar :: "state list \<Rightarrow> nat list \<Rightarrow> char \<Rightarrow> nat list" where
  "recognizeChar heap states char = concat (map (\<lambda>s. match heap s char) states)"

subsection \<open>Regular expressions\<close>

text \<open>
  \<^verbatim>\<open>new RegExp(text)\<close> on the texts \<^verbatim>\<open>add\<close> builds: a backslash makes the next
  character a literal, \<^verbatim>\<open>^\<close> and \<^verbatim>\<open>$\<close> are the assertions of the start and the end of
  the input (no \<^verbatim>\<open>m\<close> flag), the two groups are the ones of the dynamic and the star
  segment, and any other character stands for itself.
\<close>

function RegExp :: "string \<Rightarrow> re_atom list" where
  "RegExp [] = []"
| "RegExp (c # r) =
     (if c = backslash then (case r of [] \<Rightarrow> [] | d # r' \<Rightarrow> Lit d # RegExp r')
      else if c = CHR ''^'' then AssertStart # RegExp r
      else if c = CHR ''$'' then AssertEnd # RegExp r
      else if c = CHR ''('' \<and> take 6 r = ''[^/]+)'' then CaptureNotSlash # RegExp (drop 6 r)
      else if c = CHR ''('' \<and> take 3 r = ''.+)'' then CaptureAny # RegExp (drop 3 r)
      else Lit c # RegExp r)"
  by pat_completeness auto
termination
  by (relation "measure length") auto

text \<open>
  The characters a group's class takes: \<^verbatim>\<open>[^/]\<close> is every character but the slash,
  \<^verbatim>\<open>.\<close> is every character but a line terminator. The line terminators of the language
  are the line feed, the carriage return, U+2028 and U+2029; the last two are the bytes
  \<^verbatim>\<open>E2 80 A8\<close> and \<^verbatim>\<open>E2 80 A9\<close>. \<open>line_terminator_at s\<close> says that \<open>s\<close> starts with a
  line terminator, \<open>dot_run s\<close> is the number of bytes at the start of \<open>s\<close> that \<^verbatim>\<open>.+\<close>
  can take, and \<open>not_slash_run s\<close> the number of those that \<^verbatim>\<open>[^/]+\<close> can take.
\<close>

definition not_slash :: "char \<Rightarrow> bool" where
  "not_slash c \<longleftrightarrow> c \<noteq> CHR ''/''"

fun line_terminator_at :: "string \<Rightarrow> bool" where
  "line_terminator_at (c # d # e # s) \<longleftrightarrow>
     c = CHR 0x0A \<or> c = CHR 0x0D \<or> (c = CHR 0xE2 \<and> d = CHR 0x80 \<and> (e = CHR 0xA8 \<or> e = CHR 0xA9))"
| "line_terminator_at (c # s) \<longleftrightarrow> c = CHR 0x0A \<or> c = CHR 0x0D"
| "line_terminator_at [] \<longleftrightarrow> False"

fun dot_run :: "string \<Rightarrow> nat" where
  "dot_run [] = 0"
| "dot_run (c # s) = (if line_terminator_at (c # s) then 0 else Suc (dot_run s))"

definition not_slash_run :: "string \<Rightarrow> nat" where
  "not_slash_run s = length (takeWhile not_slash s)"

text \<open>
  The first result among the candidates, tried in order: the backtracking of a greedy
  quantifier tries the longest repetition first, \<open>run\<close> being the length of the longest
  one, and at least one character.
\<close>

fun first_some :: "('a \<Rightarrow> 'b option) \<Rightarrow> 'a list \<Rightarrow> 'b option" where
  "first_some f [] = None"
| "first_some f (x # xs) = (case f x of Some y \<Rightarrow> Some y | None \<Rightarrow> first_some f xs)"

definition repetitions :: "nat \<Rightarrow> nat list" where
  "repetitions run = rev [1 ..< Suc run]"

text \<open>
  Matching the atoms at one position of the input. \<open>at_start\<close> tells whether the position
  is the start of the whole input; the result is the list of the captures of the groups,
  in order.
\<close>

fun match_here :: "re_atom list \<Rightarrow> bool \<Rightarrow> string \<Rightarrow> string list option" where
  "match_here [] at_start s = Some []"
| "match_here (AssertStart # re) at_start s = (if at_start then match_here re at_start s else None)"
| "match_here (AssertEnd # re) at_start s = (if s = [] then match_here re at_start s else None)"
| "match_here (Lit c # re) at_start s =
     (case s of
        [] \<Rightarrow> None
      | d # r \<Rightarrow> if d = c then match_here re False r else None)"
| "match_here (CaptureNotSlash # re) at_start s =
     first_some (\<lambda>n. map_option (Cons (take n s)) (match_here re False (drop n s)))
       (repetitions (not_slash_run s))"
| "match_here (CaptureAny # re) at_start s =
     first_some (\<lambda>n. map_option (Cons (take n s)) (match_here re False (drop n s)))
       (repetitions (dot_run s))"

text \<open>
  \<^verbatim>\<open>path.match(regex)\<close> for a regex without the \<^verbatim>\<open>g\<close> flag: the match at the leftmost
  position that has one, \<open>None\<close> (\<^verbatim>\<open>null\<close>) when no position has.
\<close>

fun match_from :: "re_atom list \<Rightarrow> bool \<Rightarrow> string \<Rightarrow> string list option" where
  "match_from re at_start [] = match_here re at_start []"
| "match_from re at_start (c # s) =
     (case match_here re at_start (c # s) of
        Some captures \<Rightarrow> Some captures
      | None \<Rightarrow> match_from re False s)"

definition string_match :: "string \<Rightarrow> re_atom list \<Rightarrow> string list option" where
  "string_match path re = match_from re True path"

subsection \<open>URI coding\<close>

text \<open>
  \<^verbatim>\<open>decodeURIComponent\<close> and \<^verbatim>\<open>encodeURIComponent\<close> of the language (ECMAScript 5.1,
  15.1.3), on strings read as their UTF-8 bytes. Decoding throws a URIError on a
  \<^verbatim>\<open>%\<close> that two hexadecimal digits do not follow and on escapes that are not the
  UTF-8 encoding of a code point.
\<close>

definition hex_val :: "char \<Rightarrow> nat option" where
  "hex_val c =
     (let n = (of_char c :: nat) in
      if 48 \<le> n \<and> n \<le> 57 then Some (n - 48)
      else if 65 \<le> n \<and> n \<le> 70 then Some (n - 55)
      else if 97 \<le> n \<and> n \<le> 102 then Some (n - 87)
      else None)"

text \<open>The octet of an escape \<^verbatim>\<open>%XX\<close> at the head of the string.\<close>

definition escape_octet :: "string \<Rightarrow> nat option" where
  "escape_octet s =
     (case s of
        p # a # b # _ \<Rightarrow>
          (if p = CHR ''%'' then
             (case hex_val a of
                None \<Rightarrow> None
              | Some x \<Rightarrow> (case hex_val b of None \<Rightarrow> None | Some y \<Rightarrow> Some (16 * x + y)))
           else None)
      | _ \<Rightarrow> None)"

text \<open>The \<open>k\<close> continuation octets \<^verbatim>\<open>10xxxxxx\<close> that follow a leading octet.\<close>

fun continuation_octets :: "nat \<Rightarrow> string \<Rightarrow> nat list option" where
  "continuation_octets 0 s = Some []"
| "continuation_octets (Suc k) s =
     (case escape_octet s of
        None \<Rightarrow> None
      | Some b \<Rightarrow>
          (if 128 \<le> b \<and> b < 192 then
             map_option (Cons b) (continuation_octets k (drop 3 s))
           else None))"

definition utf8_length :: "nat \<Rightarrow> nat option" where
  "utf8_length b =
     (if 192 \<le> b \<and> b < 224 then Some 2
      else if 224 \<le> b \<and> b < 240 then Some 3
      else if 240 \<le> b \<and> b < 248 then Some 4
      else None)"

definition utf8_valid :: "nat \<Rightarrow> nat list \<Rightarrow> bool" where
  "utf8_valid b rest =
     (case rest of
        [b1] \<Rightarrow> 194 \<le> b
      | [b1, b2] \<Rightarrow>
          (let v = (b - 224) * 4096 + (b1 - 128) * 64 + (b2 - 128)
           in 2048 \<le> v \<and> \<not> (55296 \<le> v \<and> v \<le> 57343))
      | [b1, b2, b3] \<Rightarrow>
          (let v = (b - 240) * 262144 + (b1 - 128) * 4096 + (b2 - 128) * 64 + (b3 - 128)
           in 65536 \<le> v \<and> v \<le> 1114111)
      | _ \<Rightarrow> False)"

function decodeURIComponent :: "string \<Rightarrow> error + string" where
  "decodeURIComponent [] = Inr []"
| "decodeURIComponent (c # r) =
     (if c \<noteq> CHR ''%'' then map_sum id (Cons c) (decodeURIComponent r)
      else
        (case escape_octet (c # r) of
           None \<Rightarrow> Inl URIError
         | Some b \<Rightarrow>
             (if b < 128 then map_sum id (Cons (char_of b)) (decodeURIComponent (drop 2 r))
              else
                (case utf8_length b of
                   None \<Rightarrow> Inl URIError
                 | Some n \<Rightarrow>
                     (case continuation_octets (n - 1) (drop 2 r) of
                        None \<Rightarrow> Inl URIError
                      | Some rest \<Rightarrow>
                          (if utf8_valid b rest then
                             map_sum id (append (map char_of (b # rest)))
                               (decodeURIComponent (drop (2 + 3 * (n - 1)) r))
                           else Inl URIError))))))"
  by pat_completeness auto
termination
  by (relation "measure length") auto

definition uriUnescaped :: "char \<Rightarrow> bool" where
  "uriUnescaped c \<longleftrightarrow>
     (let n = (of_char c :: nat) in
      (48 \<le> n \<and> n \<le> 57) \<or> (65 \<le> n \<and> n \<le> 90) \<or> (97 \<le> n \<and> n \<le> 122) \<or>
      c \<in> set [CHR ''-'', CHR ''_'', CHR ''.'', CHR ''!'', CHR ''~'', CHR ''*'', CHR 0x27,
                CHR ''('', CHR '')''])"

definition hex_digit :: "nat \<Rightarrow> char" where
  "hex_digit n = (if n < 10 then char_of (48 + n) else char_of (55 + n))"

definition encodeURIComponent :: "string \<Rightarrow> string" where
  "encodeURIComponent s =
     concat (map (\<lambda>c. if uriUnescaped c then [c]
                       else [CHR ''%'', hex_digit ((of_char c :: nat) div 16),
                             hex_digit ((of_char c :: nat) mod 16)]) s)"

subsection \<open>Ranking and captures (lines 230 to 282)\<close>

text \<open>The comparator of \<^verbatim>\<open>sortSolutions\<close>, on the \<^verbatim>\<open>types\<close> of two accepting states.\<close>

definition compare_types :: "types \<Rightarrow> types \<Rightarrow> int" where
  "compare_types a b =
     (if stars a \<noteq> stars b then int (stars a) - int (stars b)
      else if dynamics a \<noteq> dynamics b then int (dynamics a) - int (dynamics b)
      else if statics a \<noteq> statics b then int (statics b) - int (statics a)
      else 0)"

text \<open>
  \<^verbatim>\<open>Array.prototype.sort\<close> with a comparator. The language leaves the algorithm open;
  the model is the insertion sort that keeps the order of elements the comparator
  calls equal.
\<close>

fun insert_by :: "('a \<Rightarrow> 'a \<Rightarrow> int) \<Rightarrow> 'a \<Rightarrow> 'a list \<Rightarrow> 'a list" where
  "insert_by cmp x [] = [x]"
| "insert_by cmp x (y # ys) =
     (if cmp x y \<le> 0 then x # y # ys else y # insert_by cmp x ys)"

definition sort_by :: "('a \<Rightarrow> 'a \<Rightarrow> int) \<Rightarrow> 'a list \<Rightarrow> 'a list" where
  "sort_by cmp xs = foldr (insert_by cmp) xs []"

text \<open>
  A solution is an accepting state: its address together with its accepting properties.
\<close>

definition sortSolutions :: "(nat \<times> accepting) list \<Rightarrow> (nat \<times> accepting) list" where
  "sortSolutions states = sort_by (\<lambda>a b. compare_types (types (snd a)) (types (snd b))) states"

datatype qvalue = QString string | QTrue

text \<open>JavaScript's truthiness of a query value: every value but the empty string.\<close>

definition truthy :: "qvalue option \<Rightarrow> bool" where
  "truthy v \<longleftrightarrow> (case v of None \<Rightarrow> False | Some QTrue \<Rightarrow> True | Some (QString s) \<Rightarrow> s \<noteq> [])"

text \<open>
  A value among the \<^verbatim>\<open>queryParams\<close> of a result: a value of the parsed query string, or
  the property of \<^verbatim>\<open>Object.prototype\<close> that the read of a key reaches when the parsed
  object does not own the key.
\<close>

datatype active_value = Parsed qvalue | Prototype_property string

record result =
  handler :: string
  params :: "(string \<times> string option) list"
  isDynamic :: bool
  queryParams :: "(string \<times> active_value) list option"

text \<open>
  The loop \<^verbatim>\<open>params[names[j]] = captures[currentCapture++]\<close>. \<open>captures\<close> is the result of
  \<^verbatim>\<open>path.match(regex)\<close>: \<open>None\<close> is \<^verbatim>\<open>null\<close>, and indexing it throws a TypeError. The
  array's element 0 is the whole match, so capture \<open>k\<close> is the group \<open>k - 1\<close>; an index
  past the end reads \<^verbatim>\<open>undefined\<close>, the value \<open>None\<close> of a param.
\<close>

definition capture_at :: "string list \<Rightarrow> nat \<Rightarrow> string option" where
  "capture_at groups k = (if 0 < k \<and> k \<le> length groups then Some (groups ! (k - 1)) else None)"

fun bind_names ::
  "string list \<Rightarrow> string list option \<Rightarrow> nat \<Rightarrow> (string \<times> string option) list \<Rightarrow>
   error + ((string \<times> string option) list \<times> nat)" where
  "bind_names [] captures currentCapture ps = Inr (ps, currentCapture)"
| "bind_names (name # names) captures currentCapture ps =
     (case captures of
        None \<Rightarrow> Inl TypeError
      | Some groups \<Rightarrow>
          bind_names names captures (Suc currentCapture)
            (obj_set ps name (capture_at groups currentCapture)))"

text \<open>
  The loop over \<^verbatim>\<open>watchedQueryParams\<close>. \<^verbatim>\<open>queryParams[key]\<close> is a value of the object that
  \<open>parseQueryString\<close> built (or of the \<^verbatim>\<open>{}\<close> that \<^verbatim>\<open>recognize\<close> starts with), or, for a
  key the object does not own, the property of \<^verbatim>\<open>Object.prototype\<close> of that name, which
  is truthy. The assignment \<^verbatim>\<open>activeQueryParams[key] = ...\<close> makes an own property, but
  for the key \<^verbatim>\<open>__proto__\<close>, where it sets the prototype to what it was.
\<close>

fun watch_queryParams ::
  "string list \<Rightarrow> (string \<times> qvalue) list \<Rightarrow> (string \<times> active_value) list \<Rightarrow>
   (string \<times> active_value) list" where
  "watch_queryParams [] qps active = active"
| "watch_queryParams (key # keys) qps active =
     watch_queryParams keys qps
       (case obj_get qps key of
          Some v \<Rightarrow> if truthy (Some v) then obj_set active key (Parsed v) else active
        | None \<Rightarrow>
            if key \<in> set Object_prototype \<and> key \<noteq> ''__proto__''
            then obj_set active key (Prototype_property key)
            else active)"

text \<open>The loop of \<^verbatim>\<open>findHandler\<close> over the handlers, and \<^verbatim>\<open>findHandler\<close>.\<close>

fun findHandler_loop ::
  "handler_entry list \<Rightarrow> string list option \<Rightarrow> nat \<Rightarrow> (string \<times> qvalue) list \<Rightarrow>
   error + result list" where
  "findHandler_loop [] captures currentCapture qps = Inr []"
| "findHandler_loop (h # hs) captures currentCapture qps =
     (case bind_names (h_names h) captures currentCapture [] of
        Inl e \<Rightarrow> Inl e
      | Inr (ps, currentCapture') \<Rightarrow>
          (let watchedQueryParams = (case h_queryParams h of Some w \<Rightarrow> w | None \<Rightarrow> []);
               activeQueryParams = watch_queryParams watchedQueryParams qps [];
               currentResult =
                 \<lparr>handler = h_handler h, params = ps, isDynamic = (h_names h \<noteq> []),
                  queryParams = (if watchedQueryParams \<noteq> [] then Some activeQueryParams else None)\<rparr>
           in map_sum id (Cons currentResult) (findHandler_loop hs captures currentCapture' qps)))"

definition findHandler ::
  "accepting \<Rightarrow> string \<Rightarrow> (string \<times> qvalue) list \<Rightarrow> error + result list" where
  "findHandler st path qps =
     findHandler_loop (handlers st) (string_match path (regex st)) 1 qps"

subsection \<open>The recognizer (lines 284 to 474)\<close>

record named_route =
  segments :: "segment list"
  route_handlers :: "handler_entry list"

text \<open>
  \<open>heap\<close> is the store of the states reachable from \<^verbatim>\<open>this.rootState\<close> (address 0),
  \<open>names\<close> the own properties of \<^verbatim>\<open>this.names\<close>.
\<close>

record recognizer =
  heap :: "state list"
  names :: "(string \<times> named_route) list"

definition rootState :: nat where
  "rootState = 0"

definition new_RouteRecognizer :: recognizer where
  "new_RouteRecognizer = \<lparr>heap = [new_State undefined_charSpec], names = []\<rparr>"

text \<open>One element of the \<^verbatim>\<open>routes\<close> array handed to \<^verbatim>\<open>add\<close>.\<close>

record route =
  r_path :: string
  r_handler :: string
  r_queryParams :: "string list option"

definition addSegment :: "state list \<Rightarrow> nat \<Rightarrow> segment \<Rightarrow> state list \<times> nat" where
  "addSegment h currentState segment =
     fold (\<lambda>char (h', s). put h' s char) (eachChar segment) (h, currentState)"

definition slash_charSpec :: charSpec where
  "slash_charSpec = \<lparr>validChars = Some ''/'', invalidChars = None, repeat = False\<rparr>"

text \<open>The local variables of \<^verbatim>\<open>add\<close> that its loops update, the store among them.\<close>

record add_vars =
  v_heap :: "state list"
  currentState :: nat
  regex_text :: string
  v_types :: types
  v_handlers :: "handler_entry list"
  allSegments :: "segment list"
  isEmpty :: bool

text \<open>The body of the inner loop of \<^verbatim>\<open>add\<close>, over the segments of one route.\<close>

definition add_segment_step :: "segment \<Rightarrow> add_vars \<Rightarrow> add_vars" where
  "add_segment_step segment v =
     (if segment = EpsilonSegment then v
      else
        (case put (v_heap v) (currentState v) slash_charSpec of (h1, s1) \<Rightarrow>
           (case addSegment h1 s1 segment of (h2, s2) \<Rightarrow>
              v\<lparr>v_heap := h2, currentState := s2,
                regex_text := regex_text v @ ''/'' @ segment_regex segment,
                isEmpty := False\<rparr>)))"

text \<open>The body of the outer loop of \<^verbatim>\<open>add\<close>, over the routes.\<close>

definition add_route_step :: "route \<Rightarrow> add_vars \<Rightarrow> add_vars" where
  "add_route_step r v =
     (case parse (r_path r) [] (v_types v) of (segs, ns, tys) \<Rightarrow>
        (let v1 = fold add_segment_step segs
                    (v\<lparr>v_types := tys, allSegments := allSegments v @ segs\<rparr>);
             h = \<lparr>h_handler = r_handler r, h_names = ns, h_queryParams = r_queryParams r\<rparr>
         in v1\<lparr>v_handlers := v_handlers v1 @ [h]\<rparr>))"

text \<open>
  \<^verbatim>\<open>add(routes, options)\<close>. \<open>as\<close> is \<^verbatim>\<open>options && options.as\<close>: \<open>None\<close> when there is
  none; the empty name is falsy and registers nothing.
\<close>

definition add :: "recognizer \<Rightarrow> route list \<Rightarrow> string option \<Rightarrow> recognizer" where
  "add R routes as =
     (let v0 = \<lparr>v_heap = heap R, currentState = rootState, regex_text = ''^'',
                v_types = \<lparr>statics = 0, dynamics = 0, stars = 0\<rparr>,
                v_handlers = [], allSegments = [], isEmpty = True\<rparr>;
          v1 = fold add_route_step routes v0;
          v2 = (if isEmpty v1 then
                  (case put (v_heap v1) (currentState v1) slash_charSpec of (h, s) \<Rightarrow>
                     v1\<lparr>v_heap := h, currentState := s, regex_text := regex_text v1 @ ''/''\<rparr>)
                else v1);
          acc = \<lparr>handlers = v_handlers v2, regex = RegExp (regex_text v2 @ ''$''),
                 types = v_types v2\<rparr>;
          h' = (v_heap v2)[currentState v2 :=
                  (v_heap v2 ! currentState v2)\<lparr>accepting := Some acc\<rparr>]
      in \<lparr>heap = h',
          names = (case as of
                     None \<Rightarrow> names R
                   | Some name \<Rightarrow>
                       if name = [] then names R
                       else obj_set (names R) name
                              \<lparr>segments = allSegments v2, route_handlers = v_handlers v2\<rparr>)\<rparr>)"

text \<open>
  \<^verbatim>\<open>this.names[name]\<close>. \<^verbatim>\<open>this.names\<close> is created as \<^verbatim>\<open>{}\<close>, so a name it does not own is
  looked up in \<^verbatim>\<open>Object.prototype\<close>, whose properties are truthy values without
  \<^verbatim>\<open>segments\<close> or \<^verbatim>\<open>handlers\<close>.
\<close>

datatype names_entry = Own named_route | Inherited | Undefined

definition names_lookup :: "recognizer \<Rightarrow> string \<Rightarrow> names_entry" where
  "names_lookup R name =
     (case obj_get (names R) name of
        Some r \<Rightarrow> Own r
      | None \<Rightarrow> if name \<in> set Object_prototype then Inherited else Undefined)"

definition handlersFor :: "recognizer \<Rightarrow> string \<Rightarrow> error + handler_entry list" where
  "handlersFor R name =
     (case names_lookup R name of
        Undefined \<Rightarrow> Inl (NoSuchRoute name)
      | Inherited \<Rightarrow> Inl TypeError
      | Own r \<Rightarrow> Inr (route_handlers r))"

definition hasRoute :: "recognizer \<Rightarrow> string \<Rightarrow> bool" where
  "hasRoute R name \<longleftrightarrow> names_lookup R name \<noteq> Undefined"

text \<open>
  \<^verbatim>\<open>generateQueryString(params, handlers)\<close>: \<open>qps\<close> are the own properties of \<^verbatim>\<open>params\<close>
  in the order \<^verbatim>\<open>for (key in params)\<close> visits them.
\<close>

definition query_pair :: "string \<Rightarrow> qvalue \<Rightarrow> string" where
  "query_pair key v =
     encodeURIComponent key @
       (case v of QTrue \<Rightarrow> [] | QString s \<Rightarrow> ''='' @ encodeURIComponent s)"

fun query_pairs :: "(string \<times> qvalue) list \<Rightarrow> string list \<Rightarrow> error + string list" where
  "query_pairs [] allowedParams = Inr []"
| "query_pairs ((key, v) # qps) allowedParams =
     (if key \<notin> set allowedParams then Inl (InvalidQueryParam key)
      else map_sum id (Cons (query_pair key v)) (query_pairs qps allowedParams))"

definition allowed_params :: "handler_entry list \<Rightarrow> string list" where
  "allowed_params hs =
     concat (map (\<lambda>h. case h_queryParams h of Some currentParamList \<Rightarrow> currentParamList
                                          | None \<Rightarrow> []) hs)"

definition generateQueryString ::
  "(string \<times> qvalue) list \<Rightarrow> handler_entry list \<Rightarrow> error + string" where
  "generateQueryString qps hs =
     (case query_pairs qps (allowed_params hs) of
        Inl e \<Rightarrow> Inl e
      | Inr pairs \<Rightarrow> Inr (if pairs = [] then [] else ''?'' @ join ''&'' pairs))"

text \<open>
  The argument \<^verbatim>\<open>params\<close> of \<^verbatim>\<open>generate\<close>: its string-valued properties and its
  property \<^verbatim>\<open>queryParams\<close>, \<open>None\<close> when it has none.
\<close>

record gen_params =
  p_values :: "(string \<times> string) list"
  p_queryParams :: "(string \<times> qvalue) list option"

text \<open>The loop of \<^verbatim>\<open>generate\<close> over the segments.\<close>

fun generate_segments ::
  "segment list \<Rightarrow> (string \<times> string) list option \<Rightarrow> string \<Rightarrow> error + string" where
  "generate_segments [] ps output = Inr output"
| "generate_segments (segment # segs) ps output =
     (if segment = EpsilonSegment then generate_segments segs ps output
      else
        (case segment_generate segment ps of
           Inl e \<Rightarrow> Inl e
         | Inr text \<Rightarrow> generate_segments segs ps (output @ ''/'' @ text)))"

definition generate :: "recognizer \<Rightarrow> string \<Rightarrow> gen_params option \<Rightarrow> error + string" where
  "generate R name ps =
     (case names_lookup R name of
        Undefined \<Rightarrow> Inl (NoSuchRoute name)
      | Inherited \<Rightarrow> Inl TypeError
      | Own r \<Rightarrow>
          (case generate_segments (segments r) (map_option p_values ps) [] of
             Inl e \<Rightarrow> Inl e
           | Inr output \<Rightarrow>
               (let output1 = (case output of
                                 [] \<Rightarrow> ''/''
                               | c # _ \<Rightarrow> if c \<noteq> CHR ''/'' then ''/'' @ output else output)
                in (case ps of
                      None \<Rightarrow> Inr output1
                    | Some p \<Rightarrow>
                        (case p_queryParams p of
                           None \<Rightarrow> Inr output1
                         | Some qps \<Rightarrow>
                             map_sum id (append output1)
                               (generateQueryString qps (route_handlers r)))))))"

text \<open>\<^verbatim>\<open>parseQueryString\<close>: the loop over the pairs, and the function.\<close>

fun parse_pairs :: "string list \<Rightarrow> (string \<times> qvalue) list \<Rightarrow> error + (string \<times> qvalue) list" where
  "parse_pairs [] qps = Inr qps"
| "parse_pairs (p # ps) qps =
     (case split_on (CHR ''='') p of
        [] \<Rightarrow> parse_pairs ps (obj_set qps ''undefined'' QTrue)
      | k # rest \<Rightarrow>
          (case decodeURIComponent k of
             Inl e \<Rightarrow> Inl e
           | Inr key \<Rightarrow>
               (case (case rest of
                        [] \<Rightarrow> Inr QTrue
                      | v # _ \<Rightarrow> if v = [] then Inr QTrue
                                 else map_sum id QString (decodeURIComponent v)) of
                  Inl e \<Rightarrow> Inl e
                | Inr val \<Rightarrow> parse_pairs ps (obj_set qps key val))))"

definition parseQueryString :: "string \<Rightarrow> error + (string \<times> qvalue) list" where
  "parseQueryString queryString = parse_pairs (split_on (CHR ''&'') queryString) []"

text \<open>
  \<^verbatim>\<open>recognize\<close>, in the order of the source: the query string is split off and parsed,
  the path gets its leading slash and loses one trailing slash, the automaton runs,
  the accepting states are sorted and the first one is handed to \<^verbatim>\<open>findHandler\<close>.
  \<open>Inr None\<close> is the result \<^verbatim>\<open>undefined\<close>.
\<close>

definition query_split :: "string \<Rightarrow> string \<times> string option" where
  "query_split path =
     (if CHR ''?'' \<in> set path
      then (takeWhile (\<lambda>c. c \<noteq> CHR ''?'') path,
            Some (drop 1 (dropWhile (\<lambda>c. c \<noteq> CHR ''?'') path)))
      else (path, None))"

definition leading_slash :: "string \<Rightarrow> string" where
  "leading_slash path =
     (case path of [] \<Rightarrow> ''/'' | c # _ \<Rightarrow> if c \<noteq> CHR ''/'' then ''/'' @ path else path)"

definition trailing_slash :: "string \<Rightarrow> string" where
  "trailing_slash path =
     (if length path > 1 \<and> last path = CHR ''/'' then butlast path else path)"

text \<open>The loop over the characters of the path, with its \<^verbatim>\<open>break\<close>.\<close>

fun traverse :: "state list \<Rightarrow> nat list \<Rightarrow> string \<Rightarrow> nat list" where
  "traverse h states [] = states"
| "traverse h states (c # cs) =
     (let states' = recognizeChar h states c
      in if states' = [] then states' else traverse h states' cs)"

definition solutions_of :: "state list \<Rightarrow> nat list \<Rightarrow> (nat \<times> accepting) list" where
  "solutions_of h states =
     List.map_filter (\<lambda>s. map_option (Pair s) (accepting (h ! s))) states"

definition recognize_path ::
  "recognizer \<Rightarrow> string \<Rightarrow> (string \<times> qvalue) list \<Rightarrow> error + result list option" where
  "recognize_path R path qps =
     (let states = traverse (heap R) [rootState] path;
          solutions = sortSolutions (solutions_of (heap R) states)
      in (case solutions of
            [] \<Rightarrow> Inr None
          | (s, st) # _ \<Rightarrow> map_sum id Some (findHandler st path qps)))"

definition recognize :: "recognizer \<Rightarrow> string \<Rightarrow> error + result list option" where
  "recognize R path =
     (case query_split path of (path1, queryString) \<Rightarrow>
        (case (case queryString of
                 None \<Rightarrow> Inr []
               | Some q \<Rightarrow> parseQueryString q) of
           Inl e \<Rightarrow> Inl e
         | Inr qps \<Rightarrow> recognize_path R (trailing_slash (leading_slash path1)) qps))"

section \<open>Notions used in the statements\<close>

text \<open>
  The recognizers a program can hold: a new one, and the ones obtained from it by calls
  of \<^verbatim>\<open>add\<close>. \<open>register calls\<close> is the recognizer after the calls of the list, each
  call given by its \<^verbatim>\<open>routes\<close> and its \<^verbatim>\<open>options.as\<close>.
\<close>

definition register :: "(route list \<times> string option) list \<Rightarrow> recognizer" where
  "register calls = fold (\<lambda>(routes, as) R. add R routes as) calls new_RouteRecognizer"

text \<open>
  The char specs that \<^verbatim>\<open>add\<close> hands to \<^verbatim>\<open>put\<close> are the ones of \<open>eachChar\<close> and the
  slash. On them the repeat flag follows from the other two fields, which the
  predicate \<open>produced\<close> says.
\<close>

definition produced :: "charSpec \<Rightarrow> bool" where
  "produced cs \<longleftrightarrow> repeat cs = (invalidChars cs \<noteq> None)"



text \<open>Routes and recognizers of the examples.\<close>

definition posts_id :: route where
  "posts_id = \<lparr>r_path = ''/posts/:id'', r_handler = ''post'', r_queryParams = None\<rparr>"

definition posts_new :: route where
  "posts_new = \<lparr>r_path = ''/posts/new'', r_handler = ''newPost'', r_queryParams = None\<rparr>"

definition posts_list :: route where
  "posts_list =
     \<lparr>r_path = ''/posts'', r_handler = ''posts'', r_queryParams = Some [''sort'', ''page'']\<rparr>"

definition route_a :: route where
  "route_a = \<lparr>r_path = ''/a'', r_handler = ''a'', r_queryParams = None\<rparr>"

definition blog_calls :: "(route list \<times> string option) list" where
  "blog_calls =
     [([posts_id], Some ''post''), ([posts_new], Some ''newPost''), ([posts_list], Some ''posts'')]"

definition blog :: recognizer where
  "blog = register blog_calls"

text \<open>
  What \<^verbatim>\<open>parse\<close> and the loops of \<^verbatim>\<open>add\<close> compute from the routes alone: the segments
  of a path, the names they capture, the tally of their kinds, the char specs they hand
  to \<^verbatim>\<open>put\<close>, the text of the regex, and the accepting properties of a chain of routes.
\<close>

definition to_segment :: "string \<Rightarrow> segment" where
  "to_segment seg =
     (case seg of
        [] \<Rightarrow> EpsilonSegment
      | c # name \<Rightarrow>
          if c = CHR '':'' \<and> name \<noteq> [] then DynamicSegment name
          else if c = CHR ''*'' \<and> name \<noteq> [] then StarSegment name
          else StaticSegment seg)"

definition path_segments :: "string \<Rightarrow> segment list" where
  "path_segments route =
     map to_segment
       (split_on (CHR ''/'')
          (case route of c # r \<Rightarrow> if c = CHR ''/'' then r else route | [] \<Rightarrow> route))"

fun segment_names :: "segment \<Rightarrow> string list" where
  "segment_names (DynamicSegment name) = [name]"
| "segment_names (StarSegment name) = [name]"
| "segment_names (StaticSegment string) = []"
| "segment_names EpsilonSegment = []"

fun count_segment :: "segment \<Rightarrow> types \<Rightarrow> types" where
  "count_segment (DynamicSegment name) tys = tys\<lparr>dynamics := Suc (dynamics tys)\<rparr>"
| "count_segment (StarSegment name) tys = tys\<lparr>stars := Suc (stars tys)\<rparr>"
| "count_segment (StaticSegment string) tys = tys\<lparr>statics := Suc (statics tys)\<rparr>"
| "count_segment EpsilonSegment tys = tys"

definition present :: "segment list \<Rightarrow> segment list" where
  "present segs = filter (\<lambda>seg. seg \<noteq> EpsilonSegment) segs"

definition segments_specs :: "segment list \<Rightarrow> charSpec list" where
  "segments_specs segs =
     (if present segs = [] then [slash_charSpec]
      else concat (map (\<lambda>seg. slash_charSpec # eachChar seg) (present segs)))"

definition segments_regex_text :: "segment list \<Rightarrow> string" where
  "segments_regex_text segs =
     ''^'' @
     (if present segs = [] then ''/''
      else concat (map (\<lambda>seg. ''/'' @ segment_regex seg) (present segs))) @
     ''$''"

definition chain_segments :: "route list \<Rightarrow> segment list" where
  "chain_segments routes = concat (map (\<lambda>r. path_segments (r_path r)) routes)"

definition chain_handlers :: "route list \<Rightarrow> handler_entry list" where
  "chain_handlers routes =
     map (\<lambda>r. \<lparr>h_handler = r_handler r,
               h_names = concat (map segment_names (path_segments (r_path r))),
               h_queryParams = r_queryParams r\<rparr>) routes"

definition chain_accepting :: "route list \<Rightarrow> accepting" where
  "chain_accepting routes =
     \<lparr>handlers = chain_handlers routes,
      regex = RegExp (segments_regex_text (chain_segments routes)),
      types = fold count_segment (chain_segments routes) \<lparr>statics = 0, dynamics = 0, stars = 0\<rparr>\<rparr>"

text \<open>A sequence of calls of \<open>put\<close>, each on the state the one before returned.\<close>

fun puts :: "state list \<Rightarrow> nat \<Rightarrow> charSpec list \<Rightarrow> state list \<times> nat" where
  "puts h s [] = (h, s)"
| "puts h s (cs # css) = (case put h s cs of (h', s') \<Rightarrow> puts h' s' css)"


definition seg_specs :: "segment list \<Rightarrow> charSpec list" where
  "seg_specs segs = concat (map (\<lambda>seg. slash_charSpec # eachChar seg) (present segs))"

definition seg_text :: "segment list \<Rightarrow> string" where
  "seg_text segs = concat (map (\<lambda>seg. ''/'' @ segment_regex seg) (present segs))"

text \<open>
  A store is closed when every child address is an address of the store. \<open>grows h h'\<close>
  says what a store keeps when states are added: the states of \<open>h\<close> keep their char
  spec and their accepting properties, their lists of children are only extended at the
  end, and the states beyond \<open>h\<close> are not accepting.
\<close>

definition closed :: "state list \<Rightarrow> bool" where
  "closed h \<longleftrightarrow> h \<noteq> [] \<and> (\<forall>s < length h. \<forall>c \<in> set (nextStates (h ! s)). c < length h)"

definition grows :: "state list \<Rightarrow> state list \<Rightarrow> bool" where
  "grows h h' \<longleftrightarrow>
     length h \<le> length h' \<and>
     (\<forall>i < length h.
        charSpec (h' ! i) = charSpec (h ! i) \<and> accepting (h' ! i) = accepting (h ! i) \<and>
        prefix (nextStates (h ! i)) (nextStates (h' ! i))) \<and>
     (\<forall>i. length h \<le> i \<and> i < length h' \<longrightarrow> accepting (h' ! i) = None)"








text \<open>The names a segment binds, each with the group that captures its value.\<close>

fun segment_groups :: "segment \<Rightarrow> (string \<times> re_atom) list" where
  "segment_groups (DynamicSegment name) = [(name, CaptureNotSlash)]"
| "segment_groups (StarSegment name) = [(name, CaptureAny)]"
| "segment_groups (StaticSegment string) = []"
| "segment_groups EpsilonSegment = []"



text \<open>
  The store of a recognizer is well formed: closed, every char spec is one that the
  segments produce, and a state whose char spec repeats is its own child.
\<close>

definition wf_heap :: "state list \<Rightarrow> bool" where
  "wf_heap h \<longleftrightarrow>
     closed h \<and>
     (\<forall>t < length h.
        produced (charSpec (h ! t)) \<and>
        (repeat (charSpec (h ! t)) \<longrightarrow> t \<in> set (nextStates (h ! t))))"

text \<open>The loop of \<open>traverse\<close> without its \<^verbatim>\<open>break\<close>.\<close>

definition steps :: "state list \<Rightarrow> nat list \<Rightarrow> string \<Rightarrow> nat list" where
  "steps h states w = fold (\<lambda>c sts. recognizeChar h sts c) w states"

text \<open>
  A path matches a sequence of char specs when it splits into one piece for each spec,
  the piece being one character that the spec takes, or one or more such characters when
  the spec repeats. For the char specs of a route this is the meaning of its pattern: a
  slash before every segment, a static segment character by character, a dynamic segment
  as one or more characters other than the slash, a star segment as one or more
  characters.
\<close>

fun spec_match :: "charSpec list \<Rightarrow> string \<Rightarrow> bool" where
  "spec_match [] w = (w = [])"
| "spec_match (cs # css) [] = False"
| "spec_match (cs # css) (c # w) =
     (accepts_char cs c \<and> (spec_match css w \<or> (repeat cs \<and> spec_match (cs # css) w)))"

text \<open>
  The store is a tree below the root, but for the self loops: \<open>lab\<close> gives every state
  the sequence of char specs on its branch. The root has the empty sequence; the
  sequence of any other state ends with the state's own char spec; and a child of a
  state is the state itself, when its char spec repeats, or has the state's sequence
  followed by the child's char spec.
\<close>

definition tree :: "state list \<Rightarrow> (nat \<Rightarrow> charSpec list) \<Rightarrow> bool" where
  "tree h lab \<longleftrightarrow>
     lab 0 = [] \<and> \<not> repeat (charSpec (h ! 0)) \<and>
     (\<forall>t < length h. t \<noteq> 0 \<longrightarrow> lab t \<noteq> [] \<and> last (lab t) = charSpec (h ! t)) \<and>
     (\<forall>s < length h. \<forall>t \<in> set (nextStates (h ! s)).
        (t = s \<and> repeat (charSpec (h ! t))) \<or> lab t = lab s @ [charSpec (h ! t)])"

text \<open>
  No char spec of the sequence is handed to a state that repeats the same char spec
  (\<open>prev\<close> is the char spec of the state the sequence starts from).
\<close>

fun spaced :: "charSpec \<Rightarrow> charSpec list \<Rightarrow> bool" where
  "spaced prev [] = True"
| "spaced prev (cs # css) = (\<not> (repeat prev \<and> isEqual prev cs) \<and> spaced cs css)"

text \<open>The pattern of a chain of routes matches a path.\<close>

definition pattern_matches :: "route list \<Rightarrow> string \<Rightarrow> bool" where
  "pattern_matches routes path = spec_match (segments_specs (chain_segments routes)) path"








text \<open>Routes of the examples of the round trip.\<close>

definition dollar_route :: route where
  "dollar_route = \<lparr>r_path = ''/a$b/:x'', r_handler = ''ab'', r_queryParams = None\<rparr>"





definition price_route :: route where
  "price_route = \<lparr>r_path = ''/a$'', r_handler = ''price'', r_queryParams = None\<rparr>"





section \<open>Properties\<close>

subsection \<open>Edge deduplication in \<open>put\<close>\<close>


lemma get_SomeD:
  "get h s cs = Some child \<Longrightarrow>
     child \<in> set (nextStates (h ! s)) \<and> isEqual (charSpec (h ! child)) cs"
  by (auto simp: get_def find_Some_iff)

lemma put_length:
  "length (fst (put h s cs)) = (if get h s cs = None then Suc (length h) else length h)"
  by (auto simp: put_def Let_def split: option.splits)

lemma produced_eachChar: "cs \<in> set (eachChar seg) \<Longrightarrow> produced cs"
  by (cases seg) (auto simp: produced_def)

lemma produced_slash: "produced slash_charSpec"
  by (simp add: produced_def slash_charSpec_def)

lemma isEqual_produced: "produced a \<Longrightarrow> produced b \<Longrightarrow> isEqual a b \<longleftrightarrow> a = b"
  by (cases a; cases b) (auto simp: produced_def isEqual_def)




subsection \<open>The table of named routes\<close>

lemma obj_get_obj_set: "obj_get (obj_set obj k v) k' = (if k' = k then Some v else obj_get obj k')"
  by (induction obj) (auto simp: obj_get_def)

lemma names_add_registers:
  "name \<noteq> [] \<Longrightarrow> obj_get (names (add R routes (Some name))) name \<noteq> None"
  by (simp add: add_def Let_def obj_get_obj_set split: prod.splits)

lemma names_add_other:
  "as \<noteq> Some name' \<Longrightarrow>
     obj_get (names (add R routes as)) name' = obj_get (names R) name'"
  by (auto simp: add_def Let_def obj_get_obj_set split: prod.splits option.splits)

lemma hasRoute_iff_own:
  "name \<notin> set Object_prototype \<Longrightarrow> hasRoute R name \<longleftrightarrow> obj_get (names R) name \<noteq> None"
  by (simp add: hasRoute_def names_lookup_def split: option.splits)

lemma unregistered_throws:
  "name \<notin> set Object_prototype \<Longrightarrow> obj_get (names R) name = None \<Longrightarrow>
     generate R name ps = Inl (NoSuchRoute name) \<and> handlersFor R name = Inl (NoSuchRoute name)"
  by (simp add: generate_def handlersFor_def names_lookup_def)

text \<open>
  C7. The claim holds of every name but the ones \<^verbatim>\<open>Object.prototype\<close> gives to the
  table \<^verbatim>\<open>this.names\<close> (the two lemmas above). For those the code misses it: in a new
  recognizer, where no route is registered, \<^verbatim>\<open>hasRoute("constructor")\<close> is true, and
  \<^verbatim>\<open>generate\<close> and \<^verbatim>\<open>handlersFor\<close> pass their check \<^verbatim>\<open>if (!route)\<close> and fail later with a
  TypeError instead of the error "There is no route named ...".
\<close>

theorem hasRoute_true_for_inherited_name:
  "obj_get (names new_RouteRecognizer) ''constructor'' = None \<and>
   hasRoute new_RouteRecognizer ''constructor'' \<and>
   generate new_RouteRecognizer ''constructor'' None = Inl TypeError \<and>
   handlersFor new_RouteRecognizer ''constructor'' = Inl TypeError"
  by (simp add: hasRoute_def generate_def handlersFor_def names_lookup_def
      new_RouteRecognizer_def obj_get_def Object_prototype_def)

subsection \<open>Query strings\<close>

lemma map_sum_id_Inr: "map_sum id f x = Inr r \<longleftrightarrow> (\<exists>y. x = Inr y \<and> r = f y)"
  by (cases x) auto

lemma map_sum_id_Inl: "map_sum id f x = Inl e \<longleftrightarrow> x = Inl e"
  by (cases x) auto

lemma decodeURIComponent_nonempty:
  "decodeURIComponent s = Inr r \<Longrightarrow> s \<noteq> [] \<Longrightarrow> r \<noteq> []"
  by (cases s) (auto simp: map_sum_id_Inr split: if_splits option.splits)

lemma split_on_nonempty: "split_on sep s \<noteq> []"
  by (induction s) (auto split: list.splits)

lemma split_on_snoc_sep: "split_on sep (s @ [sep]) = split_on sep s @ [[]]"
  by (induction s) (auto split: list.splits simp: split_on_nonempty)

lemma split_on_snoc:
  "c \<noteq> sep \<Longrightarrow>
     split_on sep (s @ [c]) = butlast (split_on sep s) @ [last (split_on sep s) @ [c]]"
  by (induction s) (auto split: list.splits simp: split_on_nonempty)

lemma split_on_no_sep: "sep \<notin> set s \<Longrightarrow> split_on sep s = [s]"
  by (induction s) auto

lemma parse_pairs_empty_value: "parse_pairs [p @ ''=''] qps = parse_pairs [p] qps"
proof -
  obtain k rest where sp: "split_on (CHR ''='') p = k # rest"
    using split_on_nonempty [of "CHR ''=''" p] by (cases "split_on (CHR ''='') p") auto
  have "split_on (CHR ''='') (p @ ''='') = k # rest @ [[]]"
    using split_on_snoc_sep [of "CHR ''=''" p] sp by simp
  then show ?thesis
    using sp by (cases rest; cases "decodeURIComponent k") simp_all
qed

lemma parse_pairs_append:
  "parse_pairs (xs @ ys) qps =
     (case parse_pairs xs qps of Inl e \<Rightarrow> Inl e | Inr qps' \<Rightarrow> parse_pairs ys qps')"
  by (induction xs arbitrary: qps) (auto split: list.splits sum.splits)

lemma parseQueryString_snoc_eq: "parseQueryString (q @ ''='') = parseQueryString q"
proof -
  let ?xs = "split_on (CHR ''&'') q"
  have a: "split_on (CHR ''&'') (q @ ''='') = butlast ?xs @ [last ?xs @ ''='']"
    using split_on_snoc [of "CHR ''=''" "CHR ''&''" q] by simp
  have b: "?xs = butlast ?xs @ [last ?xs]"
    using split_on_nonempty [of "CHR ''&''" q] by simp
  have "parse_pairs (butlast ?xs @ [last ?xs @ ''='']) [] =
        parse_pairs (butlast ?xs @ [last ?xs]) []"
    by (simp only: parse_pairs_append parse_pairs_empty_value)
  then show ?thesis
    unfolding parseQueryString_def a using b by simp
qed

lemma obj_set_values:
  "(k', v') \<in> set (obj_set obj k v) \<Longrightarrow> (k', v') \<in> set obj \<or> (k', v') = (k, v)"
  by (induction obj) (auto split: if_splits)

lemma parse_pairs_values:
  "parse_pairs ps qps = Inr r \<Longrightarrow> \<forall>(k, v) \<in> set qps. v \<noteq> QString [] \<Longrightarrow>
     \<forall>(k, v) \<in> set r. v \<noteq> QString []"
proof (induction ps arbitrary: qps)
  case Nil
  then show ?case by simp
next
  case (Cons p ps)
  show ?case
  proof (cases "split_on (CHR ''='') p")
    case Nil
    then show ?thesis using split_on_nonempty by blast
  next
    case (Cons k rest)
    with Cons.prems(1) obtain key val where
      key: "decodeURIComponent k = Inr key" and
      val: "(case rest of [] \<Rightarrow> Inr QTrue | v # _ \<Rightarrow> if v = [] then Inr QTrue
              else map_sum id QString (decodeURIComponent v)) = Inr val" and
      rec: "parse_pairs ps (obj_set qps key val) = Inr r"
      by (auto split: sum.splits)
    have "val \<noteq> QString []"
      using val
      by (auto split: list.splits if_splits simp: map_sum_id_Inr
          dest: decodeURIComponent_nonempty)
    then have "\<forall>(k, v) \<in> set (obj_set qps key val). v \<noteq> QString []"
      using Cons.prems(2) by (auto dest: obj_set_values)
    then show ?thesis using Cons.IH [OF rec] by blast
  qed
qed

text \<open>
  C10. \<^verbatim>\<open>parseQueryString\<close> reads a pair \<^verbatim>\<open>key=\<close> as it reads the bare flag \<^verbatim>\<open>key\<close>,
  wherever the pair stands; both give the key the value \<^verbatim>\<open>true\<close>; and no key of a
  parsed query string has the empty string as its value.
\<close>

theorem parseQueryString_empty_value_is_true:
  "parse_pairs ((p @ ''='') # ps) qps = parse_pairs (p # ps) qps \<and>
   parseQueryString (q @ ''='') = parseQueryString q \<and>
   (CHR ''='' \<notin> set k \<and> CHR ''&'' \<notin> set k \<and> decodeURIComponent k = Inr key \<longrightarrow>
      parseQueryString (k @ ''='') = Inr [(key, QTrue)] \<and>
      parseQueryString k = Inr [(key, QTrue)]) \<and>
   (parseQueryString q = Inr r \<longrightarrow> (\<forall>(k', v) \<in> set r. v \<noteq> QString []))"
proof -
  have "parse_pairs ([p @ ''=''] @ ps) qps = parse_pairs ([p] @ ps) qps"
    by (simp only: parse_pairs_append parse_pairs_empty_value)
  then have 1: "parse_pairs ((p @ ''='') # ps) qps = parse_pairs (p # ps) qps"
    by simp
  have 3: "parseQueryString k = Inr [(key, QTrue)]"
    if "CHR ''='' \<notin> set k" "CHR ''&'' \<notin> set k" "decodeURIComponent k = Inr key"
    using that by (simp add: parseQueryString_def split_on_no_sep)
  have 4: "\<forall>(k', v) \<in> set r. v \<noteq> QString []" if "parseQueryString q = Inr r"
    using parse_pairs_values [of _ "[]" r] that by (simp add: parseQueryString_def)
  show ?thesis
    using 1 3 4 parseQueryString_snoc_eq by metis
qed

theorem parseQueryString_empty_value_is_true_witness:
  "decodeURIComponent ''key'' = Inr ''key'' \<and>
   parseQueryString ''key='' = Inr [(''key'', QTrue)] \<and>
   parseQueryString ''key'' = Inr [(''key'', QTrue)] \<and>
   parseQueryString ''a=&b=1'' = Inr [(''a'', QTrue), (''b'', QString ''1'')]"
proof -
  have d: "decodeURIComponent ''key'' = Inr ''key''"
    by simp
  have e: "parseQueryString ''a=&b=1'' = Inr [(''a'', QTrue), (''b'', QString ''1'')]"
    by (simp add: parseQueryString_def)
  show ?thesis
    using parseQueryString_empty_value_is_true [of "[]" "[]" "[]" "''a=&b=1''" "''key''" "''key''"
        "[(''a'', QTrue), (''b'', QString ''1'')]"] d e
    by simp
qed







subsection \<open>Ranking of the accepting states\<close>











subsection \<open>Normalisation of the path\<close>

lemma query_split_Cons:
  "c \<noteq> CHR ''?'' \<Longrightarrow> query_split (c # p) = (c # fst (query_split p), snd (query_split p))"
  by (simp add: query_split_def)

lemma query_split_no_query: "CHR ''?'' \<notin> set p \<Longrightarrow> query_split p = (p, None)"
  by (simp add: query_split_def)

lemma query_split_query:
  "CHR ''?'' \<notin> set p \<Longrightarrow> query_split (p @ ''?'' @ q) = (p, Some q)"
proof -
  assume a: "CHR ''?'' \<notin> set p"
  have "takeWhile (\<lambda>c. c \<noteq> CHR ''?'') (p @ CHR ''?'' # q) = p"
    using a by (induction p) auto
  moreover have "dropWhile (\<lambda>c. c \<noteq> CHR ''?'') (p @ CHR ''?'' # q) = CHR ''?'' # q"
    using a by (induction p) auto
  ultimately show ?thesis by (simp add: query_split_def)
qed

lemma fst_query_split_start:
  "take 1 p \<noteq> ''/'' \<Longrightarrow> take 1 (fst (query_split p)) \<noteq> ''/''"
  by (cases p) (auto simp: query_split_def)

lemma leading_slash_idem:
  "take 1 p \<noteq> ''/'' \<Longrightarrow> leading_slash (CHR ''/'' # p) = leading_slash p"
  by (cases p) (auto simp: leading_slash_def)

lemma recognize_leading:
  assumes "take 1 p \<noteq> ''/''"
  shows "recognize R (''/'' @ p) = recognize R p"
proof -
  have "query_split (CHR ''/'' # p) = (CHR ''/'' # fst (query_split p), snd (query_split p))"
    by (rule query_split_Cons) simp
  moreover have "leading_slash (CHR ''/'' # fst (query_split p)) =
                 leading_slash (fst (query_split p))"
    using assms by (intro leading_slash_idem fst_query_split_start)
  ultimately show ?thesis
    by (cases "query_split p") (simp add: recognize_def split: sum.splits)
qed

lemma normalize_trailing:
  assumes "p = [] \<or> last p \<noteq> CHR ''/''"
  shows "trailing_slash (leading_slash (p @ ''/'')) = trailing_slash (leading_slash p)"
proof (cases p)
  case Nil
  then show ?thesis by (simp add: leading_slash_def trailing_slash_def)
next
  case (Cons c r)
  then have l: "last (c # r) \<noteq> CHR ''/''" using assms by simp
  have "leading_slash (p @ ''/'') = leading_slash p @ ''/''"
    using Cons by (simp add: leading_slash_def)
  moreover have "leading_slash p \<noteq> []" "last (leading_slash p) \<noteq> CHR ''/''"
    using Cons l by (auto simp: leading_slash_def)
  ultimately show ?thesis by (simp add: trailing_slash_def)
qed

lemma recognize_trailing:
  assumes "CHR ''?'' \<notin> set p" "p = [] \<or> last p \<noteq> CHR ''/''"
  shows "recognize R (p @ ''/'') = recognize R p"
proof -
  have "query_split (p @ ''/'') = (p @ ''/'', None)"
    using assms(1) by (simp add: query_split_def)
  then show ?thesis
    using assms by (simp add: recognize_def query_split_no_query normalize_trailing)
qed

lemma recognize_query:
  assumes "CHR ''?'' \<notin> set p"
  shows "recognize R (p @ ''?'' @ q) =
     (case parseQueryString q of
        Inl e \<Rightarrow> Inl e
      | Inr qps \<Rightarrow> recognize_path R (trailing_slash (leading_slash p)) qps)"
  using query_split_query [OF assms, of q] by (simp add: recognize_def)

lemma recognize_no_query:
  assumes "CHR ''?'' \<notin> set p"
  shows "recognize R p = recognize_path R (trailing_slash (leading_slash p)) []"
  using assms by (simp add: recognize_def query_split_no_query)

text \<open>
  C5 (as amended). \<open>recognize\<close> splits the input at its first \<^verbatim>\<open>?\<close>, parses what follows
  with \<open>parseQueryString\<close> and runs the automaton on the part before it, with a slash put
  in front when it has none and one trailing slash removed unless that leaves nothing.
  So \<open>recognize\<close> of \<^verbatim>\<open>"/" + p\<close> is \<open>recognize\<close> of \<open>p\<close> for every \<open>p\<close> that does not
  start with a slash, and \<open>recognize\<close> of \<^verbatim>\<open>p + "/"\<close> is \<open>recognize\<close> of \<open>p\<close> for every \<open>p\<close>
  that holds no \<^verbatim>\<open>?\<close> and does not end with a slash.
\<close>

theorem recognize_normalizes_path:
  "(CHR ''?'' \<notin> set p \<longrightarrow>
      recognize R p = recognize_path R (trailing_slash (leading_slash p)) [] \<and>
      recognize R (p @ ''?'' @ q) =
        (case parseQueryString q of
           Inl e \<Rightarrow> Inl e
         | Inr qps \<Rightarrow> recognize_path R (trailing_slash (leading_slash p)) qps)) \<and>
   leading_slash p = (if take 1 p = ''/'' then p else ''/'' @ p) \<and>
   trailing_slash ''/'' = ''/'' \<and>
   (p \<noteq> [] \<longrightarrow> trailing_slash (p @ ''/'') = p) \<and>
   (p \<noteq> [] \<and> last p \<noteq> CHR ''/'' \<longrightarrow> trailing_slash p = p) \<and>
   (take 1 p \<noteq> ''/'' \<longrightarrow> recognize R (''/'' @ p) = recognize R p) \<and>
   (CHR ''?'' \<notin> set p \<and> (p = [] \<or> last p \<noteq> CHR ''/'') \<longrightarrow>
      recognize R (p @ ''/'') = recognize R p)"
proof -
  have "leading_slash p = (if take 1 p = ''/'' then p else ''/'' @ p)"
    by (cases p) (auto simp: leading_slash_def)
  moreover have "trailing_slash ''/'' = ''/''"
    by (simp add: trailing_slash_def)
  moreover have "p \<noteq> [] \<longrightarrow> trailing_slash (p @ ''/'') = p"
    by (simp add: trailing_slash_def)
  moreover have "p \<noteq> [] \<and> last p \<noteq> CHR ''/'' \<longrightarrow> trailing_slash p = p"
    by (simp add: trailing_slash_def)
  ultimately show ?thesis
    using recognize_no_query [of p R] recognize_query [of p R q] recognize_leading [of p R]
      recognize_trailing [of p R]
    by blast
qed

theorem recognize_normalizes_path_witness:
  "CHR ''?'' \<notin> set ''posts/12'' \<and> take 1 ''posts/12'' \<noteq> ''/'' \<and> last ''posts/12'' \<noteq> CHR ''/'' \<and>
   recognize blog (''/'' @ ''posts/12'') = recognize blog ''posts/12'' \<and>
   recognize blog (''posts/12'' @ ''/'') = recognize blog ''posts/12'' \<and>
   recognize blog ''posts/12'' = recognize_path blog ''/posts/12'' [] \<and>
   recognize blog (''posts/12'' @ ''?'' @ ''page=2'') = recognize_path blog ''/posts/12'' [(''page'', QString ''2'')]"
proof -
  have n: "trailing_slash (leading_slash ''posts/12'') = ''/posts/12''"
    by (simp add: trailing_slash_def leading_slash_def)
  have q: "parseQueryString ''page=2'' = Inr [(''page'', QString ''2'')]"
    by (simp add: parseQueryString_def)
  show ?thesis
    using recognize_normalizes_path [of "''posts/12''" blog "''page=2''"] n q
    by simp
qed

text \<open>
  The claim as stated fails for a path that ends with a slash: with the route \<^verbatim>\<open>/a\<close>
  registered, \<^verbatim>\<open>"/a/"\<close> is recognized and \<^verbatim>\<open>"/a/" + "/"\<close> is not.
\<close>

theorem recognize_trailing_slash_twice:
  "recognize (add new_RouteRecognizer [route_a] None) ''/a/'' =
     Inr (Some [\<lparr>handler = ''a'', params = [], isDynamic = False, queryParams = None\<rparr>]) \<and>
   recognize (add new_RouteRecognizer [route_a] None) (''/a/'' @ ''/'') = Inr None"
  by code_simp

subsection \<open>What \<open>add\<close> computes\<close>

lemma parse_segment_eq:
  "parse_segment seg (results, ns, tys) =
     (results @ [to_segment seg], ns @ segment_names (to_segment seg), count_segment (to_segment seg) tys)"
  by (cases seg) (auto simp: parse_segment_def to_segment_def)

lemma fold_parse_segment:
  "fold parse_segment xs (results, ns, tys) =
     (results @ map to_segment xs, ns @ concat (map segment_names (map to_segment xs)),
      fold count_segment (map to_segment xs) tys)"
  by (induction xs arbitrary: results ns tys) (simp_all add: parse_segment_eq)

lemma parse_eq:
  "parse route ns tys =
     (path_segments route, ns @ concat (map segment_names (path_segments route)),
      fold count_segment (path_segments route) tys)"
  by (simp add: parse_def path_segments_def fold_parse_segment Let_def)

lemma puts_append:
  "puts h s (xs @ ys) = (case puts h s xs of (h', s') \<Rightarrow> puts h' s' ys)"
  by (induction xs arbitrary: h s) (auto split: prod.splits)

lemma addSegment_puts: "addSegment h s seg = puts h s (eachChar seg)"
proof -
  have "fold (\<lambda>char (h', s). put h' s char) xs (h, s) = puts h s xs" for xs
    by (induction xs arbitrary: h s) (auto split: prod.splits)
  then show ?thesis by (simp add: addSegment_def)
qed

lemma fold_add_segment_step:
  "fold add_segment_step segs v =
     (case puts (v_heap v) (currentState v) (seg_specs segs) of (h', s') \<Rightarrow>
        v\<lparr>v_heap := h', currentState := s',
          regex_text := regex_text v @ seg_text segs,
          isEmpty := (isEmpty v \<and> present segs = [])\<rparr>)"
proof (induction segs arbitrary: v)
  case Nil
  then show ?case by (simp add: seg_specs_def seg_text_def present_def)
next
  case (Cons seg segs)
  show ?case
  proof (cases "seg = EpsilonSegment")
    case True
    then show ?thesis using Cons [of v]
      by (simp add: add_segment_step_def seg_specs_def seg_text_def present_def)
  next
    case False
    obtain h1 s1 where p1: "put (v_heap v) (currentState v) slash_charSpec = (h1, s1)"
      by (cases "put (v_heap v) (currentState v) slash_charSpec")
    obtain h2 s2 where p2: "puts h1 s1 (eachChar seg) = (h2, s2)"
      by (cases "puts h1 s1 (eachChar seg)")
    let ?v1 = "v\<lparr>v_heap := h2, currentState := s2,
                regex_text := regex_text v @ ''/'' @ segment_regex seg, isEmpty := False\<rparr>"
    have step: "add_segment_step seg v = ?v1"
      using False p1 p2 by (simp add: add_segment_step_def addSegment_puts)
    have "fold add_segment_step (seg # segs) v = fold add_segment_step segs ?v1"
      by (simp add: step)
    also have "\<dots> = (case puts (v_heap ?v1) (currentState ?v1) (seg_specs segs) of (h', s') \<Rightarrow>
        ?v1\<lparr>v_heap := h', currentState := s',
          regex_text := regex_text ?v1 @ seg_text segs,
          isEmpty := (isEmpty ?v1 \<and> present segs = [])\<rparr>)"
      by (rule Cons)
    finally show ?thesis
      using False p1 p2
      by (simp add: seg_specs_def seg_text_def present_def puts_append split: prod.splits)
  qed
qed


lemma present_append: "present (a @ b) = present a @ present b"
  by (simp add: present_def)

lemma seg_specs_append: "seg_specs (a @ b) = seg_specs a @ seg_specs b"
  by (simp add: seg_specs_def present_append)

lemma seg_text_append: "seg_text (a @ b) = seg_text a @ seg_text b"
  by (simp add: seg_text_def present_append)

lemma add_route_step_eq:
  "add_route_step r v =
     (case puts (v_heap v) (currentState v) (seg_specs (path_segments (r_path r))) of (h', s') \<Rightarrow>
        v\<lparr>v_heap := h', currentState := s',
          regex_text := regex_text v @ seg_text (path_segments (r_path r)),
          v_types := fold count_segment (path_segments (r_path r)) (v_types v),
          v_handlers := v_handlers v @ chain_handlers [r],
          allSegments := allSegments v @ path_segments (r_path r),
          isEmpty := (isEmpty v \<and> present (path_segments (r_path r)) = [])\<rparr>)"
  by (simp add: add_route_step_def parse_eq fold_add_segment_step chain_handlers_def Let_def
      split: prod.splits)

lemma chain_segments_Cons: "chain_segments (r # rs) = path_segments (r_path r) @ chain_segments rs"
  by (simp add: chain_segments_def)

lemma chain_handlers_Cons: "chain_handlers (r # rs) = chain_handlers [r] @ chain_handlers rs"
  by (simp add: chain_handlers_def)

lemma fold_add_route_step:
  "fold add_route_step routes v =
     (case puts (v_heap v) (currentState v) (seg_specs (chain_segments routes)) of (h', s') \<Rightarrow>
        v\<lparr>v_heap := h', currentState := s',
          regex_text := regex_text v @ seg_text (chain_segments routes),
          v_types := fold count_segment (chain_segments routes) (v_types v),
          v_handlers := v_handlers v @ chain_handlers routes,
          allSegments := allSegments v @ chain_segments routes,
          isEmpty := (isEmpty v \<and> present (chain_segments routes) = [])\<rparr>)"
proof (induction routes arbitrary: v)
  case Nil
  then show ?case
    by (simp add: chain_segments_def chain_handlers_def seg_specs_def seg_text_def present_def)
next
  case (Cons r routes)
  obtain h1 s1 where p1:
    "puts (v_heap v) (currentState v) (seg_specs (path_segments (r_path r))) = (h1, s1)"
    by (cases "puts (v_heap v) (currentState v) (seg_specs (path_segments (r_path r)))")
  let ?v1 = "v\<lparr>v_heap := h1, currentState := s1,
          regex_text := regex_text v @ seg_text (path_segments (r_path r)),
          v_types := fold count_segment (path_segments (r_path r)) (v_types v),
          v_handlers := v_handlers v @ chain_handlers [r],
          allSegments := allSegments v @ path_segments (r_path r),
          isEmpty := (isEmpty v \<and> present (path_segments (r_path r)) = [])\<rparr>"
  have step: "add_route_step r v = ?v1"
    using p1 by (simp add: add_route_step_eq)
  have "fold add_route_step (r # routes) v = fold add_route_step routes ?v1"
    by (simp add: step)
  also have "\<dots> = (case puts (v_heap ?v1) (currentState ?v1) (seg_specs (chain_segments routes)) of (h', s') \<Rightarrow>
        ?v1\<lparr>v_heap := h', currentState := s',
          regex_text := regex_text ?v1 @ seg_text (chain_segments routes),
          v_types := fold count_segment (chain_segments routes) (v_types ?v1),
          v_handlers := v_handlers ?v1 @ chain_handlers routes,
          allSegments := allSegments ?v1 @ chain_segments routes,
          isEmpty := (isEmpty ?v1 \<and> present (chain_segments routes) = [])\<rparr>)"
    by (rule Cons)
  finally show ?case
    using p1
    by (simp add: chain_segments_Cons chain_handlers_Cons [of r routes] seg_specs_append
        seg_text_append present_append puts_append split: prod.splits)
qed

lemma seg_specs_empty: "present segs = [] \<Longrightarrow> seg_specs segs = []"
  by (simp add: seg_specs_def)

lemma seg_text_empty: "present segs = [] \<Longrightarrow> seg_text segs = []"
  by (simp add: seg_text_def)

lemma add_eq:
  "add R routes as =
     \<lparr>heap = (case puts (heap R) rootState (segments_specs (chain_segments routes)) of
                (h, T) \<Rightarrow> h[T := (h ! T)\<lparr>accepting := Some (chain_accepting routes)\<rparr>]),
      names = (case as of
                 None \<Rightarrow> names R
               | Some name \<Rightarrow>
                   if name = [] then names R
                   else obj_set (names R) name
                          \<lparr>segments = chain_segments routes,
                           route_handlers = chain_handlers routes\<rparr>)\<rparr>"
proof (cases "present (chain_segments routes) = []")
  case True
  then show ?thesis
    by (simp add: add_def fold_add_route_step Let_def segments_specs_def chain_accepting_def
        segments_regex_text_def seg_specs_empty seg_text_empty split: prod.splits option.splits)
next
  case False
  then show ?thesis
    by (simp add: add_def fold_add_route_step Let_def segments_specs_def chain_accepting_def
        segments_regex_text_def seg_specs_def seg_text_def split: prod.splits option.splits)
qed

text \<open>
  The examples below are evaluated through this characterisation of \<open>add\<close>, which
  spares the evaluation the local variables of the loops.
\<close>

declare add_eq [code]

subsection \<open>What \<open>add\<close> keeps of the store\<close>

lemma grows_refl: "grows h h"
  by (auto simp: grows_def)

lemma grows_trans:
  assumes "grows a b" "grows b c"
  shows "grows a c"
proof -
  have len: "length a \<le> length b" "length b \<le> length c"
    using assms by (simp_all add: grows_def)
  have old: "charSpec (c ! i) = charSpec (a ! i) \<and> accepting (c ! i) = accepting (a ! i) \<and>
             prefix (nextStates (a ! i)) (nextStates (c ! i))" if "i < length a" for i
  proof -
    have "i < length b" using that len by simp
    then have "charSpec (c ! i) = charSpec (b ! i) \<and> accepting (c ! i) = accepting (b ! i) \<and>
               prefix (nextStates (b ! i)) (nextStates (c ! i))"
      using assms(2) by (simp add: grows_def)
    moreover have "charSpec (b ! i) = charSpec (a ! i) \<and> accepting (b ! i) = accepting (a ! i) \<and>
               prefix (nextStates (a ! i)) (nextStates (b ! i))"
      using assms(1) that by (simp add: grows_def)
    ultimately show ?thesis by (metis prefix_order.order_trans)
  qed
  have new: "accepting (c ! i) = None" if "length a \<le> i" "i < length c" for i
  proof (cases "i < length b")
    case True
    then have "accepting (c ! i) = accepting (b ! i)" using assms(2) by (simp add: grows_def)
    moreover have "accepting (b ! i) = None" using assms(1) that True by (simp add: grows_def)
    ultimately show ?thesis by simp
  next
    case False
    then show ?thesis using assms(2) that by (simp add: grows_def)
  qed
  show ?thesis
    unfolding grows_def using len old new by auto
qed

lemma put_found: "get h s cs = Some c \<Longrightarrow> put h s cs = (h, c)"
  by (simp add: put_def)

lemma put_new:
  "get h s cs = None \<Longrightarrow>
   put h s cs =
     (h[s := (h ! s)\<lparr>nextStates := nextStates (h ! s) @ [length h]\<rparr>] @
        [\<lparr>charSpec = cs, nextStates = (if repeat cs then [length h] else []), accepting = None\<rparr>],
      length h)"
  by (simp add: put_def Let_def new_State_def nth_append list_update_append)

lemma put_grows:
  assumes "closed h" "s < length h" "put h s cs = (h', c)"
  shows "grows h h' \<and> closed h' \<and> c < length h'"
proof (cases "get h s cs")
  case None
  have h': "h' = h[s := (h ! s)\<lparr>nextStates := nextStates (h ! s) @ [length h]\<rparr>] @
        [\<lparr>charSpec = cs, nextStates = (if repeat cs then [length h] else []), accepting = None\<rparr>]"
    and c: "c = length h"
    using put_new [OF None] assms(3) by simp_all
  have g: "grows h h'"
    unfolding grows_def h' using assms(2)
    by (auto simp: nth_append nth_list_update)
  have cl: "closed h'"
    unfolding closed_def h' using assms(1,2)
    by (auto simp: closed_def nth_append nth_list_update less_Suc_eq split: if_splits)
  show ?thesis using g cl c h' by simp
next
  case (Some child)
  then have "h' = h" "c = child" using put_found [OF Some] assms(3) by simp_all
  moreover have "child < length h"
    using get_SomeD [OF Some] assms(1,2) by (auto simp: closed_def)
  ultimately show ?thesis using assms(1) by (simp add: grows_refl)
qed

lemma puts_grows:
  "closed h \<Longrightarrow> s < length h \<Longrightarrow> puts h s specs = (h', c) \<Longrightarrow>
     grows h h' \<and> closed h' \<and> c < length h'"
proof (induction specs arbitrary: h s)
  case Nil
  then show ?case by (simp add: grows_refl)
next
  case (Cons cs specs)
  obtain h1 s1 where p: "put h s cs = (h1, s1)" by (cases "put h s cs")
  then have 1: "grows h h1 \<and> closed h1 \<and> s1 < length h1"
    using put_grows Cons.prems by blast
  have "puts h1 s1 specs = (h', c)" using Cons.prems(3) p by simp
  then have "grows h1 h' \<and> closed h' \<and> c < length h'"
    using Cons.IH 1 by blast
  then show ?case using 1 grows_trans by blast
qed

lemma nth_accepting_update:
  "s < length h \<Longrightarrow>
     nextStates (h[T := (h ! T)\<lparr>accepting := a\<rparr>] ! s) = nextStates (h ! s) \<and>
     charSpec (h[T := (h ! T)\<lparr>accepting := a\<rparr>] ! s) = charSpec (h ! s)"
  by (cases "s = T") simp_all

lemma closed_accepting_update:
  "closed h \<Longrightarrow> closed (h[T := (h ! T)\<lparr>accepting := a\<rparr>])"
  by (simp add: closed_def nth_accepting_update)

lemma heap_add:
  "heap (add R routes as) =
     (case puts (heap R) rootState (segments_specs (chain_segments routes)) of
        (h, T) \<Rightarrow> h[T := (h ! T)\<lparr>accepting := Some (chain_accepting routes)\<rparr>])"
  by (simp add: add_eq)

lemma register_snoc:
  "register (calls @ [(routes, as)]) = add (register calls) routes as"
  by (simp add: register_def)





subsection \<open>The regex of an accepting state and its captures\<close>















subsection \<open>Accepting states hold registered chains\<close>


lemma match_bound: "closed h \<Longrightarrow> s < length h \<Longrightarrow> t \<in> set (match h s c) \<Longrightarrow> t < length h"
  by (auto simp: match_def closed_def)

lemma recognizeChar_bound:
  "closed h \<Longrightarrow> \<forall>s \<in> set states. s < length h \<Longrightarrow> \<forall>t \<in> set (recognizeChar h states c). t < length h"
  by (auto simp: recognizeChar_def dest: match_bound)

lemma traverse_bound:
  "closed h \<Longrightarrow> \<forall>s \<in> set states. s < length h \<Longrightarrow> \<forall>t \<in> set (traverse h states w). t < length h"
proof (induction w arbitrary: states)
  case Nil
  then show ?case by simp
next
  case (Cons c w)
  then show ?case
    using recognizeChar_bound [of h states c] by (auto simp: Let_def)
qed

lemma solutions_of_D:
  "(s, st) \<in> set (solutions_of h states) \<Longrightarrow> s \<in> set states \<and> accepting (h ! s) = Some st"
  by (auto simp: solutions_of_def map_filter_def)





subsection \<open>Groups and names\<close>




lemma segment_groups_Eps: "seg \<notin> set (present segs) \<Longrightarrow> seg \<in> set segs \<Longrightarrow> segment_groups seg = []"
  by (auto simp: present_def)



subsection \<open>The params of a result\<close>












subsection \<open>The automaton and the patterns\<close>

lemma recognizeChar_Nil: "recognizeChar h [] c = []"
  by (simp add: recognizeChar_def)

lemma steps_Nil: "steps h [] w = []"
  by (induction w) (simp_all add: steps_def recognizeChar_Nil)

lemma traverse_steps: "traverse h states w = steps h states w"
proof (induction w arbitrary: states)
  case Nil
  then show ?case by (simp add: steps_def)
next
  case (Cons c w)
  have "steps h states (c # w) = steps h (recognizeChar h states c) w"
    by (simp add: steps_def)
  then show ?case using Cons steps_Nil [of h w] by (simp add: Let_def)
qed

lemma steps_snoc: "steps h states (w @ [c]) = recognizeChar h (steps h states w) c"
  by (simp add: steps_def)

lemma spec_match_Nil2: "spec_match specs [] \<longleftrightarrow> specs = []"
  by (cases specs) auto

lemma spec_match_single:
  "spec_match [cs] w \<longleftrightarrow> w \<noteq> [] \<and> (\<forall>c \<in> set w. accepts_char cs c) \<and> (length w = 1 \<or> repeat cs)"
proof (induction w)
  case Nil
  then show ?case by simp
next
  case (Cons c w)
  then show ?case by (cases w) auto
qed


lemma spec_match_snoc:
  "spec_match (css @ [cs]) (w @ [c]) \<longleftrightarrow>
     accepts_char cs c \<and> (spec_match css w \<or> (repeat cs \<and> spec_match (css @ [cs]) w))"
proof (induction css w rule: spec_match.induct)
  case (1 w)
  show ?case
  proof (cases w)
    case Nil
    then show ?thesis by simp
  next
    case (Cons x xs)
    then show ?thesis by (auto simp: spec_match_single)
  qed
next
  case (2 d ds)
  then show ?case by (cases ds) (auto simp: spec_match_Nil2)
next
  case (3 d ds x xs)
  then show ?case by auto
qed

lemma wf_put:
  assumes "wf_heap h" "s < length h" "produced cs" "put h s cs = (h', c)"
  shows "wf_heap h'"
proof (cases "get h s cs")
  case None
  have h': "h' = h[s := (h ! s)\<lparr>nextStates := nextStates (h ! s) @ [length h]\<rparr>] @
        [\<lparr>charSpec = cs, nextStates = (if repeat cs then [length h] else []), accepting = None\<rparr>]"
    using put_new [OF None] assms(4) by simp
  have cl: "closed h'"
    using put_grows [OF _ assms(2,4)] assms(1) by (simp add: wf_heap_def)
  have "produced (charSpec (h' ! t)) \<and> (repeat (charSpec (h' ! t)) \<longrightarrow> t \<in> set (nextStates (h' ! t)))"
    if "t < length h'" for t
  proof (cases "t < length h")
    case True
    then show ?thesis
      using assms(1,2) unfolding h' wf_heap_def
      by (cases "t = s") (auto simp: nth_append nth_list_update)
  next
    case False
    then have "t = length h" using that by (simp add: h')
    then show ?thesis using assms(3) by (simp add: h' nth_append)
  qed
  then show ?thesis using cl by (simp add: wf_heap_def)
next
  case (Some child)
  then show ?thesis using put_found [OF Some] assms by simp
qed

lemma wf_puts:
  "wf_heap h \<Longrightarrow> s < length h \<Longrightarrow> \<forall>cs \<in> set specs. produced cs \<Longrightarrow> puts h s specs = (h', c) \<Longrightarrow>
     wf_heap h'"
proof (induction specs arbitrary: h s)
  case Nil
  then show ?case by simp
next
  case (Cons cs specs)
  obtain h1 s1 where p: "put h s cs = (h1, s1)" by (cases "put h s cs")
  have 1: "wf_heap h1" using wf_put [OF Cons.prems(1,2) _ p] Cons.prems(3) by simp
  have 2: "s1 < length h1"
    using put_grows [OF _ Cons.prems(2) p] Cons.prems(1) by (simp add: wf_heap_def)
  have "puts h1 s1 specs = (h', c)" using Cons.prems(4) p by simp
  then show ?case using Cons.IH [OF 1 2] Cons.prems(3) by simp
qed

lemma produced_segments_specs: "cs \<in> set (segments_specs segs) \<Longrightarrow> produced cs"
  by (auto simp: segments_specs_def produced_slash dest: produced_eachChar split: if_splits)

lemma wf_accepting_update: "wf_heap h \<Longrightarrow> wf_heap (h[T := (h ! T)\<lparr>accepting := a\<rparr>])"
  by (simp add: wf_heap_def closed_accepting_update nth_accepting_update)

lemma wf_register: "wf_heap (heap (register calls))"
proof (induction calls rule: rev_induct)
  case Nil
  then show ?case
    by (simp add: register_def new_RouteRecognizer_def wf_heap_def closed_def new_State_def
        undefined_charSpec_def produced_def)
next
  case (snoc call calls)
  obtain routes as where call: "call = (routes, as)" by (cases call)
  obtain h T where p: "puts (heap (register calls)) rootState (segments_specs (chain_segments routes)) = (h, T)"
    by (cases "puts (heap (register calls)) rootState (segments_specs (chain_segments routes))")
  have "rootState < length (heap (register calls))"
    using snoc by (simp add: wf_heap_def closed_def rootState_def)
  then have "wf_heap h"
    using wf_puts [OF snoc _ _ p] produced_segments_specs by blast
  then show ?case
    using p by (simp add: call register_snoc heap_add wf_accepting_update)
qed





subsection \<open>Paths that match no pattern\<close>

lemma steps_bound:
  "closed h \<Longrightarrow> \<forall>s \<in> set states. s < length h \<Longrightarrow> \<forall>t \<in> set (steps h states w). t < length h"
  using traverse_bound [of h states w] by (simp add: traverse_steps)

lemma steps_sound:
  assumes "wf_heap h" "tree h lab"
  shows "t \<in> set (steps h [0] w) \<Longrightarrow> spec_match (lab t) w"
proof (induction w arbitrary: t rule: rev_induct)
  case Nil
  then show ?case using assms(2) by (simp add: steps_def tree_def)
next
  case (snoc c w)
  have cl: "closed h" using assms(1) by (simp add: wf_heap_def)
  from snoc.prems obtain s where s: "s \<in> set (steps h [0] w)" and m: "t \<in> set (match h s c)"
    by (auto simp: steps_snoc recognizeChar_def)
  have sb: "s < length h"
    using steps_bound [OF cl, of "[0]" w] s cl by (auto simp: closed_def)
  have tc: "t \<in> set (nextStates (h ! s))" and ac: "accepts_char (charSpec (h ! t)) c"
    using m by (simp_all add: match_def)
  have IH: "spec_match (lab s) w" using snoc.IH [OF s] .
  from assms(2) sb tc
  consider "t = s" "repeat (charSpec (h ! t))" | "lab t = lab s @ [charSpec (h ! t)]"
    unfolding tree_def by blast
  then show ?case
  proof cases
    case 1
    have "\<not> repeat (charSpec (h ! 0))" using assms(2) by (simp add: tree_def)
    then have "s \<noteq> 0" using 1 by metis
    then have "lab s \<noteq> []" "last (lab s) = charSpec (h ! s)"
      using assms(2) sb by (simp_all add: tree_def)
    then obtain css where l: "lab s = css @ [charSpec (h ! s)]"
      by (metis append_butlast_last_id)
    show ?thesis
      using IH 1 ac unfolding 1(1) l by (simp add: spec_match_snoc)
  next
    case 2
    then show ?thesis using IH ac by (simp add: spec_match_snoc)
  qed
qed

lemma tree_put:
  assumes "wf_heap h" "tree h lab" "s < length h" "produced cs"
    and "\<not> (repeat (charSpec (h ! s)) \<and> isEqual (charSpec (h ! s)) cs)"
    and "put h s cs = (h', c)"
  shows "\<exists>lab'. tree h' lab' \<and> (\<forall>t < length h. lab' t = lab t) \<and> lab' c = lab s @ [cs] \<and>
                charSpec (h' ! c) = cs"
proof (cases "get h s cs")
  case None
  let ?n = "length h"
  have h': "h' = h[s := (h ! s)\<lparr>nextStates := nextStates (h ! s) @ [?n]\<rparr>] @
        [\<lparr>charSpec = cs, nextStates = (if repeat cs then [?n] else []), accepting = None\<rparr>]"
    and c: "c = ?n"
    using put_new [OF None] assms(6) by simp_all
  let ?lab = "lab(?n := lab s @ [cs])"
  have cl: "closed h" using assms(1) by (simp add: wf_heap_def)
  have n0: "?n \<noteq> 0" using cl by (simp add: closed_def)
  have cs: "charSpec (h' ! t) = (if t = ?n then cs else charSpec (h ! t))" if "t \<le> ?n" for t
    using that assms(3) unfolding h' by (cases "t = s") (auto simp: nth_append nth_list_update)
  have ns: "nextStates (h' ! t) =
      (if t = ?n then (if repeat cs then [?n] else [])
       else if t = s then nextStates (h ! s) @ [?n] else nextStates (h ! t))" if "t \<le> ?n" for t
    using that assms(3) unfolding h' by (cases "t = s") (auto simp: nth_append nth_list_update)
  have len: "length h' = Suc ?n" by (simp add: h')
  have 1: "?lab 0 = [] \<and> \<not> repeat (charSpec (h' ! 0))"
    using assms(2) n0 cs [of 0] by (simp add: tree_def)
  have 2: "?lab t \<noteq> [] \<and> last (?lab t) = charSpec (h' ! t)" if "t < length h'" "t \<noteq> 0" for t
    using that assms(2) cs [of t] by (auto simp: len tree_def)
  have 3: "(t = u \<and> repeat (charSpec (h' ! t))) \<or> ?lab t = ?lab u @ [charSpec (h' ! t)]"
    if "u < length h'" "t \<in> set (nextStates (h' ! u))" for u t
  proof (cases "u = ?n")
    case True
    then have "t = ?n" "repeat cs" using that ns [of u] by (auto split: if_splits)
    then show ?thesis using True cs [of t] by simp
  next
    case False
    then have ub: "u < ?n" using that len by simp
    show ?thesis
    proof (cases "t = ?n")
      case True
      then have "u = s" using that ns [of u] ub cl by (auto simp: closed_def split: if_splits)
      then show ?thesis using True cs [of t] assms(3) by simp
    next
      case False
      then have tin: "t \<in> set (nextStates (h ! u))"
        using that ns [of u] ub by (auto split: if_splits)
      then have tb: "t < ?n" using cl ub by (auto simp: closed_def)
      have "(t = u \<and> repeat (charSpec (h ! t))) \<or> lab t = lab u @ [charSpec (h ! t)]"
        using assms(2) ub tin unfolding tree_def by blast
      then show ?thesis using tb ub cs [of t] by auto
    qed
  qed
  have "tree h' ?lab"
    unfolding tree_def using 1 2 3 by blast
  moreover have "\<forall>t < ?n. ?lab t = lab t" by simp
  moreover have "?lab c = lab s @ [cs]" by (simp add: c)
  moreover have "charSpec (h' ! c) = cs" using cs [of c] c by simp
  ultimately show ?thesis by blast
next
  case (Some child)
  then have e: "h' = h" "c = child" using put_found [OF Some] assms(6) by simp_all
  have cin: "child \<in> set (nextStates (h ! s))" and eq: "isEqual (charSpec (h ! child)) cs"
    using get_SomeD [OF Some] by simp_all
  have cb: "child < length h" using cin assms(1,3) by (auto simp: wf_heap_def closed_def)
  then have ce: "charSpec (h ! child) = cs"
    using eq assms(1,4) isEqual_produced [of "charSpec (h ! child)" cs] by (simp add: wf_heap_def)
  have "(child = s \<and> repeat (charSpec (h ! child))) \<or> lab child = lab s @ [charSpec (h ! child)]"
    using assms(2,3) cin unfolding tree_def by blast
  then have "lab child = lab s @ [cs]"
    using assms(5) ce eq by auto
  then show ?thesis using assms(2) ce e by blast
qed

lemma tree_puts:
  "wf_heap h \<Longrightarrow> tree h lab \<Longrightarrow> s < length h \<Longrightarrow> \<forall>cs \<in> set specs. produced cs \<Longrightarrow>
   spaced (charSpec (h ! s)) specs \<Longrightarrow> puts h s specs = (h', T) \<Longrightarrow>
     \<exists>lab'. tree h' lab' \<and> (\<forall>t < length h. lab' t = lab t) \<and> lab' T = lab s @ specs"
proof (induction specs arbitrary: h s lab)
  case Nil
  then show ?case by auto
next
  case (Cons cs specs)
  obtain h1 s1 where p: "put h s cs = (h1, s1)" by (cases "put h s cs")
  have pr: "produced cs" using Cons.prems(4) by simp
  have ns: "\<not> (repeat (charSpec (h ! s)) \<and> isEqual (charSpec (h ! s)) cs)"
    using Cons.prems(5) by simp
  from tree_put [OF Cons.prems(1,2,3) pr ns p] obtain lab1 where
    l1: "tree h1 lab1" "\<forall>t < length h. lab1 t = lab t" "lab1 s1 = lab s @ [cs]"
        "charSpec (h1 ! s1) = cs"
    by blast
  have w1: "wf_heap h1" using wf_put [OF Cons.prems(1,3) pr p] .
  have g1: "grows h h1" "s1 < length h1"
    using put_grows [OF _ Cons.prems(3) p] Cons.prems(1) by (simp_all add: wf_heap_def)
  have sp: "spaced (charSpec (h1 ! s1)) specs" using Cons.prems(5) l1(4) by simp
  have pu: "puts h1 s1 specs = (h', T)" using Cons.prems(6) p by simp
  from Cons.IH [OF w1 l1(1) g1(2) _ sp pu] Cons.prems(4) obtain lab' where
    l': "tree h' lab'" "\<forall>t < length h1. lab' t = lab1 t" "lab' T = lab1 s1 @ specs"
    by auto
  have "\<forall>t < length h. lab' t = lab t"
    using l'(2) l1(2) g1(1) by (auto simp: grows_def)
  then show ?case using l'(1,3) l1(3) by auto
qed

lemma spaced_static:
  "\<not> repeat prev \<Longrightarrow> (\<And>p. \<not> repeat p \<Longrightarrow> spaced p rest) \<Longrightarrow>
     spaced prev (map (\<lambda>char. \<lparr>validChars = Some [char], invalidChars = None, repeat = False\<rparr>) s @ rest)"
  by (induction s arbitrary: prev) auto

lemma spaced_seg_blocks:
  "repeat prev \<longrightarrow> validChars prev = None \<Longrightarrow>
     spaced prev (concat (map (\<lambda>seg. slash_charSpec # eachChar seg) segs))"
proof (induction segs arbitrary: prev)
  case Nil
  then show ?case by simp
next
  case (Cons seg segs)
  have a: "\<not> (repeat prev \<and> isEqual prev slash_charSpec)"
    using Cons.prems by (auto simp: isEqual_def slash_charSpec_def)
  have b: "spaced slash_charSpec
             (eachChar seg @ concat (map (\<lambda>seg. slash_charSpec # eachChar seg) segs))"
  proof (cases seg)
    case (StaticSegment s)
    have "\<not> repeat slash_charSpec" by (simp add: slash_charSpec_def)
    then show ?thesis
      unfolding StaticSegment eachChar.simps
      by (rule spaced_static) (simp add: Cons.IH)
  next
    case (DynamicSegment n)
    then show ?thesis
      using Cons.IH [of "\<lparr>validChars = None, invalidChars = Some ''/'', repeat = True\<rparr>"]
      by (simp add: slash_charSpec_def)
  next
    case (StarSegment n)
    then show ?thesis
      using Cons.IH [of "\<lparr>validChars = None, invalidChars = Some [], repeat = True\<rparr>"]
      by (simp add: slash_charSpec_def)
  next
    case EpsilonSegment
    then show ?thesis using Cons.IH [of slash_charSpec] by (simp add: slash_charSpec_def)
  qed
  show ?case using a b by simp
qed

lemma spaced_segments_specs:
  "\<not> repeat prev \<Longrightarrow> spaced prev (segments_specs segs)"
  using spaced_seg_blocks [of prev "present segs"]
  by (auto simp: segments_specs_def isEqual_def)

lemma tree_accepting_update: "tree h lab \<Longrightarrow> tree (h[T := (h ! T)\<lparr>accepting := a\<rparr>]) lab"
proof -
  assume t: "tree h lab"
  have "charSpec (h[T := (h ! T)\<lparr>accepting := a\<rparr>] ! s) = charSpec (h ! s) \<and>
        nextStates (h[T := (h ! T)\<lparr>accepting := a\<rparr>] ! s) = nextStates (h ! s)" for s
    by (cases "T < length h") (auto simp: nth_list_update list_update_beyond not_less)
  then show ?thesis using t by (simp add: tree_def)
qed

lemma register_tree:
  "\<exists>lab. tree (heap (register calls)) lab \<and>
     (\<forall>t < length (heap (register calls)). \<forall>acc. accepting (heap (register calls) ! t) = Some acc \<longrightarrow>
        (\<exists>(routes, as) \<in> set calls. lab t = segments_specs (chain_segments routes)))"
proof (induction calls rule: rev_induct)
  case Nil
  have "tree (heap (register [])) (\<lambda>_. [])"
    by (simp add: register_def new_RouteRecognizer_def tree_def new_State_def undefined_charSpec_def)
  moreover have "accepting (heap (register []) ! t) = None" if "t < length (heap (register []))" for t
    using that by (simp add: register_def new_RouteRecognizer_def new_State_def)
  ultimately show ?case by fastforce
next
  case (snoc call calls)
  obtain routes as where call: "call = (routes, as)" by (cases call)
  let ?h0 = "heap (register calls)"
  let ?specs = "segments_specs (chain_segments routes)"
  from snoc obtain lab where lab: "tree ?h0 lab" and
    acc: "\<forall>t < length ?h0. \<forall>acc. accepting (?h0 ! t) = Some acc \<longrightarrow>
            (\<exists>(routes, as) \<in> set calls. lab t = segments_specs (chain_segments routes))"
    by blast
  obtain h T where p: "puts ?h0 rootState ?specs = (h, T)"
    by (cases "puts ?h0 rootState ?specs")
  have w0: "wf_heap ?h0" by (rule wf_register)
  then have r0: "rootState < length ?h0" by (simp add: wf_heap_def closed_def rootState_def)
  have g: "grows ?h0 h" and Tb: "T < length h"
    using puts_grows [OF _ r0 p] w0 by (simp_all add: wf_heap_def)
  have sp: "spaced (charSpec (?h0 ! rootState)) ?specs"
    using lab by (intro spaced_segments_specs) (simp add: tree_def rootState_def)
  from tree_puts [OF w0 lab r0 _ sp p] produced_segments_specs obtain lab' where
    l': "tree h lab'" "\<forall>t < length ?h0. lab' t = lab t" "lab' T = lab rootState @ ?specs"
    by blast
  have lT: "lab' T = ?specs" using l'(3) lab by (simp add: tree_def rootState_def)
  let ?h' = "h[T := (h ! T)\<lparr>accepting := Some (chain_accepting routes)\<rparr>]"
  have h': "heap (register (calls @ [call])) = ?h'"
    using p by (simp add: call register_snoc heap_add)
  have t': "tree ?h' lab'" using l'(1) by (rule tree_accepting_update)
  have "\<exists>(routes, as) \<in> set (calls @ [call]). lab' t = segments_specs (chain_segments routes)"
    if "t < length ?h'" "accepting (?h' ! t) = Some a" for t a
  proof (cases "t = T")
    case True
    then show ?thesis using lT by (auto simp: call)
  next
    case False
    then have a: "accepting (h ! t) = Some a" and tl: "t < length h"
      using that by simp_all
    then have t0: "t < length ?h0 \<and> accepting (?h0 ! t) = Some a"
      using g by (cases "t < length ?h0") (auto simp: grows_def)
    then obtain routes' as' where "(routes', as') \<in> set calls"
      "lab t = segments_specs (chain_segments routes')"
      using acc by blast
    then show ?thesis using l'(2) t0 by auto
  qed
  then show ?case unfolding h' using t' by blast
qed

lemma recognize_path_without_match:
  assumes "\<forall>(routes, as) \<in> set calls. \<not> pattern_matches routes path"
  shows "recognize_path (register calls) path qps = Inr None"
proof -
  let ?h = "heap (register calls)"
  obtain lab where lab: "tree ?h lab" and
    acc: "\<forall>t < length ?h. \<forall>acc. accepting (?h ! t) = Some acc \<longrightarrow>
            (\<exists>(routes, as) \<in> set calls. lab t = segments_specs (chain_segments routes))"
    using register_tree by blast
  have w: "wf_heap ?h" by (rule wf_register)
  then have cl: "closed ?h" by (simp add: wf_heap_def)
  have "solutions_of ?h (traverse ?h [rootState] path) = []"
  proof (rule ccontr)
    assume "solutions_of ?h (traverse ?h [rootState] path) \<noteq> []"
    then obtain s st where "(s, st) \<in> set (solutions_of ?h (traverse ?h [rootState] path))"
      by (cases "solutions_of ?h (traverse ?h [rootState] path)") auto
    then have s: "s \<in> set (steps ?h [0] path)" and a: "accepting (?h ! s) = Some st"
      using solutions_of_D [of s st ?h] by (simp_all add: traverse_steps rootState_def)
    have sb: "s < length ?h"
      using steps_bound [OF cl, of "[0]" path] s cl by (auto simp: closed_def)
    then obtain routes as where "(routes, as) \<in> set calls"
      "lab s = segments_specs (chain_segments routes)"
      using acc a by blast
    moreover have "spec_match (lab s) path" using steps_sound [OF w lab s] .
    ultimately show False using assms by (auto simp: pattern_matches_def)
  qed
  then show ?thesis
    by (simp add: recognize_path_def sortSolutions_def sort_by_def)
qed

lemma decodeURIComponent_error: "decodeURIComponent s = Inl e \<Longrightarrow> e = URIError"
proof (induction s rule: decodeURIComponent.induct)
  case 1
  then show ?case by simp
next
  case (2 c r)
  then show ?case
    by (auto simp: map_sum_id_Inl split: if_splits option.splits)
qed

lemma parse_pairs_error: "parse_pairs ps qps = Inl e \<Longrightarrow> e = URIError"
proof (induction ps arbitrary: qps)
  case Nil
  then show ?case by simp
next
  case (Cons p ps)
  then show ?case
    by (auto simp: map_sum_id_Inl split: list.splits sum.splits if_splits
        dest: decodeURIComponent_error)
qed

text \<open>
  C3 (as amended). When the pattern of no registered chain of routes matches the
  normalised path of the input, \<open>recognize\<close> returns \<^verbatim>\<open>undefined\<close>, provided the input
  has no query string or one that \<open>parseQueryString\<close> can decode; it throws a URIError
  when the query string holds a malformed escape, which is parsed before the automaton
  runs.
\<close>

theorem recognize_without_match_is_undefined:
  assumes "\<forall>(routes, as) \<in> set calls.
             \<not> pattern_matches routes (trailing_slash (leading_slash (fst (query_split input))))"
  shows "recognize (register calls) input =
           (case snd (query_split input) of
              None \<Rightarrow> Inr None
            | Some q \<Rightarrow> (case parseQueryString q of Inl e \<Rightarrow> Inl URIError | Inr qps \<Rightarrow> Inr None))"
proof -
  have "recognize_path (register calls) (trailing_slash (leading_slash (fst (query_split input)))) qps =
          Inr None" for qps
    using assms by (rule recognize_path_without_match)
  moreover have "parseQueryString q = Inl e \<Longrightarrow> e = URIError" for q e
    by (auto simp: parseQueryString_def dest: parse_pairs_error)
  ultimately show ?thesis
    by (auto simp: recognize_def split: prod.splits option.splits sum.splits)
qed

theorem recognize_without_match_is_undefined_witness:
  "\<not> pattern_matches [posts_id] ''/users'' \<and> \<not> pattern_matches [posts_new] ''/users'' \<and>
   \<not> pattern_matches [posts_list] ''/users'' \<and>
   recognize (register blog_calls) ''/users'' = Inr None \<and>
   recognize (register blog_calls) ''users/?page=2'' = Inr None"
proof -
  have n: "\<not> pattern_matches [posts_id] ''/users'' \<and> \<not> pattern_matches [posts_new] ''/users'' \<and>
      \<not> pattern_matches [posts_list] ''/users''"
    by code_simp
  have q1: "query_split ''/users'' = (''/users'', None)"
    and q2: "query_split ''users/?page=2'' = (''users/'', Some ''page=2'')"
    by (simp_all add: query_split_def)
  have t: "trailing_slash (leading_slash ''/users'') = ''/users''"
      "trailing_slash (leading_slash ''users/'') = ''/users''"
    by (simp_all add: trailing_slash_def leading_slash_def)
  have p: "parseQueryString ''page=2'' = Inr [(''page'', QString ''2'')]"
    by (simp add: parseQueryString_def)
  show ?thesis
    using recognize_without_match_is_undefined [of blog_calls "''/users''"]
      recognize_without_match_is_undefined [of blog_calls "''users/?page=2''"] n q1 q2 t p
    by (simp add: blog_calls_def)
qed

text \<open>
  The claim as stated fails: no pattern of the example matches \<^verbatim>\<open>/users\<close>, and
  \<open>recognize\<close> throws on it when a malformed query string follows.
\<close>

theorem recognize_throws_on_malformed_query:
  "\<not> pattern_matches [posts_id] ''/users'' \<and> \<not> pattern_matches [posts_new] ''/users'' \<and>
   \<not> pattern_matches [posts_list] ''/users'' \<and>
   recognize (register blog_calls) ''/users?page=%'' = Inl URIError"
  by code_simp

subsection \<open>The state of a pattern and the chain it holds\<close>















subsection \<open>From \<open>generate\<close> to \<open>recognize\<close>\<close>


















































text \<open>
  A static segment with \<^verbatim>\<open>$\<close> (or \<^verbatim>\<open>^\<close>) in a chain that has a dynamic or a star
  segment is outside the theorem: the character reaches the regex without a backslash,
  the automaton accepts the generated URL, the regex does not match it, and
  \<open>findHandler\<close> throws on the missing captures. In a chain without such segments
  \<open>findHandler\<close> reads no capture, and the URL is recognized.
\<close>

lemma recognize_throws_on_unescaped_dollar:
  "generate (register [([dollar_route], Some ''ab'')]) ''ab''
     (Some \<lparr>p_values = [(''x'', ''1'')], p_queryParams = None\<rparr>) = Inr ''/a$b/1'' \<and>
   recognize (register [([dollar_route], Some ''ab'')]) ''/a$b/1'' = Inl TypeError \<and>
   generate (register [([price_route], Some ''price'')]) ''price''
     (Some \<lparr>p_values = [], p_queryParams = None\<rparr>) = Inr ''/a$'' \<and>
   recognize (register [([price_route], Some ''price'')]) ''/a$'' =
     Inr (Some [\<lparr>handler = ''price'', params = [], isDynamic = False, queryParams = None\<rparr>])"
  by code_simp

end
